theory Spec2Isabelle
  imports Complex_Main
begin

section \<open>Values, objects and the heap\<close>

text \<open>
  The validated data are JavaScript values.  The model covers the primitives
  \<open>undefined\<close>, \<open>null\<close>, booleans, numbers and strings, and references to plain
  objects and dense arrays that live in a heap.  A finite number is a rational;
  \<open>NaN\<close> and the two infinities are separate constants.
\<close>

datatype jsnum = Finite rat | NaN | PosInfinity | NegInfinity

datatype prim = PUndefined | PNull | PBool bool | PNum jsnum | PStr string

type_synonym addr = nat

datatype val = Prim prim | Ref addr

text \<open>
  An object lists its enumerable own properties in the order in which
  \<open>for (let i in x)\<close> yields them; an array lists its elements.
\<close>

datatype obj = Object "(string \<times> val) list" | Array "val list"

type_synonym heap = "obj list"

definition undefined_v :: "val" where
  "undefined_v = Prim PUndefined"

definition lookup :: "heap \<Rightarrow> addr \<Rightarrow> obj option" where
  "lookup h a = (if a < length h then Some (h ! a) else None)"

definition alloc :: "heap \<Rightarrow> obj \<Rightarrow> addr \<times> heap" where
  "alloc h ob = (length h, h @ [ob])"

subsection \<open>Decimal texts and array indices\<close>

definition digit_char :: "nat \<Rightarrow> char" where
  "digit_char d = ''0123456789'' ! d"

function show_nat :: "nat \<Rightarrow> string" where
  "show_nat n = (if n < 10 then [digit_char n] else show_nat (n div 10) @ [digit_char (n mod 10)])"
  by pat_completeness auto
termination
  by (relation "measure id") auto

declare show_nat.simps [simp del]

definition digit_value :: "char \<Rightarrow> nat option" where
  "digit_value c = map_of (zip ''0123456789'' [0, 1, 2, 3, 4, 5, 6, 7, 8, 9]) c"

fun parse_nat :: "nat \<Rightarrow> string \<Rightarrow> nat option" where
  "parse_nat acc [] = Some acc"
| "parse_nat acc (c # cs) =
     (case digit_value c of None \<Rightarrow> None | Some d \<Rightarrow> parse_nat (10 * acc + d) cs)"

text \<open>
  A property key is an array index when it is the canonical decimal text of a
  number below \<open>2^32 - 1\<close>.
\<close>

definition array_index :: "string \<Rightarrow> nat option" where
  "array_index k =
     (if k = [] then None
      else case parse_nat 0 k of
             None \<Rightarrow> None
           | Some n \<Rightarrow> if show_nat n = k \<and> n < 4294967295 then Some n else None)"

subsection \<open>Reading and writing properties\<close>

fun overwrite :: "(string \<times> val) list \<Rightarrow> string \<Rightarrow> val \<Rightarrow> (string \<times> val) list" where
  "overwrite [] k v = []"
| "overwrite ((j, w) # kvs) k v = (if j = k then (k, v) # kvs else (j, w) # overwrite kvs k v)"

fun insert_index :: "(string \<times> val) list \<Rightarrow> nat \<Rightarrow> string \<Rightarrow> val \<Rightarrow> (string \<times> val) list" where
  "insert_index [] n k v = [(k, v)]"
| "insert_index ((j, w) # kvs) n k v =
     (case array_index j of
        Some m \<Rightarrow> if m < n then (j, w) # insert_index kvs n k v else (k, v) # (j, w) # kvs
      | None \<Rightarrow> (k, v) # (j, w) # kvs)"

text \<open>
  Assigning to an existing property keeps its place.  A new property goes
  after the other properties, except that index keys come first in ascending
  order.  The key \<open>__proto__\<close> is special: when the object has no own
  property of that name the assignment runs the accessor that
  \<open>Object.prototype\<close> provides, which adds no property (what it does to
  the prototype is not modelled).
\<close>

definition proto_key :: string where
  "proto_key = ''__proto__''"

definition put_field :: "(string \<times> val) list \<Rightarrow> string \<Rightarrow> val \<Rightarrow> (string \<times> val) list" where
  "put_field kvs k v =
     (if k \<in> fst ` set kvs then overwrite kvs k v
      else if k = proto_key then kvs
      else case array_index k of
             Some n \<Rightarrow> insert_index kvs n k v
           | None \<Rightarrow> kvs @ [(k, v)])"

text \<open>
  \<open>getprop h x k\<close> is the read \<open>x[k]\<close>: an absent property reads as
  \<open>undefined\<close> (the prototype chain is not modelled).
\<close>

definition getprop :: "heap \<Rightarrow> val \<Rightarrow> string \<Rightarrow> val" where
  "getprop h x k =
     (case x of
        Prim p \<Rightarrow> undefined_v
      | Ref a \<Rightarrow>
          (case lookup h a of
             None \<Rightarrow> undefined_v
           | Some (Object kvs) \<Rightarrow> (case map_of kvs k of None \<Rightarrow> undefined_v | Some v \<Rightarrow> v)
           | Some (Array vs) \<Rightarrow>
               (case array_index k of
                  Some i \<Rightarrow> if i < length vs then vs ! i else undefined_v
                | None \<Rightarrow> if k = ''length'' then Prim (PNum (Finite (of_nat (length vs)))) else undefined_v)))"

text \<open>
  \<open>setprop h x k v\<close> is the assignment \<open>x[k] = v\<close>.  Writing an array
  element beyond the end extends the array; arrays carry no named properties
  in this model.
\<close>

definition setprop :: "heap \<Rightarrow> val \<Rightarrow> string \<Rightarrow> val \<Rightarrow> heap" where
  "setprop h x k v =
     (case x of
        Prim p \<Rightarrow> h
      | Ref a \<Rightarrow>
          (case lookup h a of
             None \<Rightarrow> h
           | Some (Object kvs) \<Rightarrow> h[a := Object (put_field kvs k v)]
           | Some (Array vs) \<Rightarrow>
               (case array_index k of
                  Some i \<Rightarrow>
                    if i < length vs then h[a := Array (vs[i := v])]
                    else h[a := Array (vs @ replicate (i - length vs) undefined_v @ [v])]
                | None \<Rightarrow> h)))"

definition typeof_object :: "val \<Rightarrow> bool" where
  "typeof_object x = (case x of Ref a \<Rightarrow> True | Prim p \<Rightarrow> p = PNull)"

definition truthy :: "val \<Rightarrow> bool" where
  "truthy x =
     (case x of
        Ref a \<Rightarrow> True
      | Prim PUndefined \<Rightarrow> False
      | Prim PNull \<Rightarrow> False
      | Prim (PBool b) \<Rightarrow> b
      | Prim (PNum n) \<Rightarrow> (case n of Finite q \<Rightarrow> q \<noteq> 0 | NaN \<Rightarrow> False | _ \<Rightarrow> True)
      | Prim (PStr s) \<Rightarrow> s \<noteq> [])"

definition isArray :: "heap \<Rightarrow> val \<Rightarrow> bool" where
  "isArray h x =
     (case x of
        Prim p \<Rightarrow> False
      | Ref a \<Rightarrow> (case lookup h a of Some (Array vs) \<Rightarrow> True | _ \<Rightarrow> False))"

text \<open>The \<open>length\<close> of an array; an array never has more than \<open>2^32 - 1\<close> elements.\<close>

definition array_length :: "heap \<Rightarrow> val \<Rightarrow> nat" where
  "array_length h x =
     (case x of
        Prim p \<Rightarrow> 0
      | Ref a \<Rightarrow> (case lookup h a of Some (Array vs) \<Rightarrow> min (length vs) 4294967295 | _ \<Rightarrow> 0))"

text \<open>Strict equality \<open>===\<close>: references by identity, \<open>NaN\<close> equal to nothing.\<close>

definition strict_equals :: "val \<Rightarrow> val \<Rightarrow> bool" where
  "strict_equals x y = (x = y \<and> x \<noteq> Prim (PNum NaN))"

section \<open>Errors\<close>

datatype segment = Key string | Index nat

text \<open>
  \<open>ErrorInfo\<close> is an \<open>ErrorDescription\<close> together with a path.  The
  description \<open>ExpectedJSON p\<close> stands for
  \<open>{ type: "expected", expected: JSON.stringify(p) }\<close>, whose text is not computed here.
\<close>

datatype description =
    Expected string
  | ExpectedJSON prim
  | Union "info list"
  | KeyError info
  | Custom string
  | Unexpected
and info = Info (descr: description) (path: "segment list")

text \<open>A thrown value is a \<open>ValidationError\<close> or any other exception.\<close>

datatype exn = ValidationError info | OtherError string

type_synonym outcome = "exn + val"

type_synonym validator = "val \<Rightarrow> heap \<Rightarrow> outcome \<times> heap"

fun rethrow :: "exn \<Rightarrow> segment \<Rightarrow> exn" where
  "rethrow (ValidationError i) p = ValidationError (Info (descr i) (path i @ [p]))"
| "rethrow (OtherError t) p = OtherError t"

datatype message = Msg string | Desc description

fun fail :: "message \<Rightarrow> exn" where
  "fail (Msg m) = ValidationError (Info (Custom m) [])"
| "fail (Desc d) = ValidationError (Info d [])"

section \<open>The dispatcher\<close>

text \<open>
  A schema is a validator function, a primitive literal, or an object whose
  properties are schemas.  \<open>Keyed is_array fields\<close> lists the properties in
  \<open>for (let i in schema)\<close> order; \<open>is_array\<close> is \<open>Array.isArray(schema)\<close>,
  and the fields of an array schema are its elements under the keys
  \<open>0\<close>, \<open>1\<close>, ..., so that their number is \<open>schema.length\<close>.
\<close>

datatype schema =
    Fn validator
  | Lit prim
  | Keyed bool "(string \<times> schema) list"

definition index_keys :: "nat \<Rightarrow> string list" where
  "index_keys n = map show_nat [0..<n]"

definition ObjS :: "(string \<times> schema) list \<Rightarrow> schema" where
  "ObjS fields = Keyed False fields"

definition ArrS :: "schema list \<Rightarrow> schema" where
  "ArrS elems = Keyed True (zip (index_keys (length elems)) elems)"

definition shape_mismatch :: "heap \<Rightarrow> val \<Rightarrow> bool \<Rightarrow> nat \<Rightarrow> bool" where
  "shape_mismatch h x is_array n =
     (\<not> typeof_object x \<or> \<not> truthy x \<or>
      \<not> (if is_array then isArray h x \<and> n = array_length h x else \<not> isArray h x))"

fun validate :: "val \<Rightarrow> schema \<Rightarrow> heap \<Rightarrow> outcome \<times> heap"
and validate_fields :: "val \<Rightarrow> (string \<times> schema) list \<Rightarrow> heap \<Rightarrow> outcome \<times> heap" where
  "validate x (Fn f) h = f x h"
| "validate x (Keyed is_array fields) h =
     (if shape_mismatch h x is_array (length fields)
      then (Inl (fail (Desc (Expected
              (if is_array then ''array['' @ show_nat (length fields) @ '']'' else ''object'')))), h)
      else validate_fields x fields h)"
| "validate x (Lit p) h =
     (if \<not> strict_equals x (Prim p) then (Inl (fail (Desc (ExpectedJSON p))), h)
      else (Inr x, h))"
| "validate_fields x [] h = (Inr x, h)"
| "validate_fields x ((i, s) # rest) h =
     (case validate (getprop h x i) s h of
        (Inl e, h') \<Rightarrow> (Inl (rethrow e (Key i)), h')
      | (Inr v, h') \<Rightarrow> validate_fields x rest (setprop h' x i v))"

section \<open>Validators\<close>

text \<open>
  A user-supplied function (the mapping of \<open>map\<close>, the predicate of
  \<open>filter\<close>) may read and change the heap and may throw.
\<close>

type_synonym 'a callback = "val \<Rightarrow> heap \<Rightarrow> (exn + 'a) \<times> heap"

definition map_v :: "schema \<Rightarrow> val callback \<Rightarrow> validator" where
  "map_v schema f = (\<lambda>x h.
     case validate x schema h of
       (Inl e, h') \<Rightarrow> (Inl e, h')
     | (Inr r, h') \<Rightarrow> f r h')"

definition filter_message :: "message option \<Rightarrow> message" where
  "filter_message m =
     (case m of
        None \<Rightarrow> Msg ''filter failed''
      | Some (Msg t) \<Rightarrow> if t = [] then Msg ''filter failed'' else Msg t
      | Some (Desc d) \<Rightarrow> Desc d)"

definition filter_v :: "schema \<Rightarrow> bool callback \<Rightarrow> message option \<Rightarrow> validator" where
  "filter_v schema p m = map_v schema (\<lambda>x h.
     case p x h of
       (Inl e, h') \<Rightarrow> (Inl e, h')
     | (Inr b, h') \<Rightarrow> if b then (Inr x, h') else (Inl (fail (filter_message m)), h'))"

text \<open>
  A regular expression is an object of the caller.  Its \<open>test\<close> method may
  keep state between calls (with the flag \<open>g\<close> or \<open>y\<close> it reads and
  advances \<open>lastIndex\<close>), so it is a callback on the heap, where such state
  lives.  \<open>text_of\<close> is the text that a template string prints for the
  expression.
\<close>

record regexp =
  text_of :: string
  test :: "bool callback"

definition is_string :: "val \<Rightarrow> bool" where
  "is_string x = (case x of Prim (PStr s) \<Rightarrow> True | _ \<Rightarrow> False)"

definition string_expected :: "regexp option \<Rightarrow> string" where
  "string_expected regex =
     ''string'' @ (case regex of None \<Rightarrow> [] | Some r \<Rightarrow> '' matching '' @ text_of r)"

definition string_v :: "regexp option \<Rightarrow> validator" where
  "string_v regex = (\<lambda>x h.
     if is_string x
     then (case regex of
             None \<Rightarrow> (Inr x, h)
           | Some r \<Rightarrow>
               (case test r x h of
                  (Inl e, h') \<Rightarrow> (Inl e, h')
                | (Inr b, h') \<Rightarrow>
                    if b then (Inr x, h')
                    else (Inl (fail (Desc (Expected (string_expected regex)))), h')))
     else (Inl (fail (Desc (Expected (string_expected regex)))), h))"

definition isFinite :: "val \<Rightarrow> bool" where
  "isFinite x = (case x of Prim (PNum (Finite q)) \<Rightarrow> True | _ \<Rightarrow> False)"

definition isInteger :: "val \<Rightarrow> bool" where
  "isInteger x = (case x of Prim (PNum (Finite q)) \<Rightarrow> of_int \<lfloor>q\<rfloor> = q | _ \<Rightarrow> False)"

definition number :: validator where
  "number = (\<lambda>x h. if isFinite x then (Inr x, h)
                   else (Inl (fail (Desc (Expected ''finite number''))), h))"

definition integer :: validator where
  "integer = (\<lambda>x h. if isInteger x then (Inr x, h)
                    else (Inl (fail (Desc (Expected ''integer''))), h))"

definition boolean :: validator where
  "boolean = (\<lambda>x h. if (case x of Prim (PBool b) \<Rightarrow> True | _ \<Rightarrow> False) then (Inr x, h)
                    else (Inl (fail (Desc (Expected ''boolean''))), h))"

text \<open>\<open>maybe(schema)\<close> without a default is \<open>maybe schema undefined_v\<close>.\<close>

definition maybe :: "schema \<Rightarrow> val \<Rightarrow> validator" where
  "maybe schema dflt = (\<lambda>x h.
     if x = Prim PUndefined then (Inr dflt, h) else validate x schema h)"

definition struct :: "schema \<Rightarrow> validator" where
  "struct schema = (\<lambda>x h. validate x schema h)"

definition own_keys :: "heap \<Rightarrow> val \<Rightarrow> string list" where
  "own_keys h x =
     (case x of
        Prim p \<Rightarrow> []
      | Ref a \<Rightarrow> (case lookup h a of Some (Object kvs) \<Rightarrow> map fst kvs | _ \<Rightarrow> []))"

definition has_key :: "heap \<Rightarrow> val \<Rightarrow> string \<Rightarrow> bool" where
  "has_key h x k = (k \<in> set (own_keys h x))"

fun key_failure :: "exn \<Rightarrow> string \<Rightarrow> exn" where
  "key_failure (ValidationError i) k = ValidationError (Info (KeyError i) [Key k])"
| "key_failure (OtherError t) k = OtherError t"

text \<open>
  The loop of \<open>record\<close> over the keys of \<open>x\<close>, filling the new object \<open>y\<close>.
  A key that was deleted before its turn is skipped.  \<open>to_key\<close> is the
  coercion that JavaScript applies to a computed property key
  (the identity on strings); it is a parameter of the model.
\<close>

fun record_loop ::
  "(heap \<Rightarrow> val \<Rightarrow> string) \<Rightarrow> schema \<Rightarrow> schema \<Rightarrow> val \<Rightarrow> val \<Rightarrow> string list \<Rightarrow> heap
   \<Rightarrow> outcome \<times> heap" where
  "record_loop to_key key val x y [] h = (Inr y, h)"
| "record_loop to_key key val x y (i # rest) h =
     (if \<not> has_key h x i then record_loop to_key key val x y rest h
      else case validate (getprop h x i) val h of
             (Inl e, h1) \<Rightarrow> (Inl (rethrow e (Key i)), h1)
           | (Inr v, h1) \<Rightarrow>
               (case validate (Prim (PStr i)) key h1 of
                  (Inl e, h2) \<Rightarrow> (Inl (key_failure e i), h2)
                | (Inr k, h2) \<Rightarrow>
                    record_loop to_key key val x y rest (setprop h2 y (to_key h2 k) v)))"

definition record_v :: "(heap \<Rightarrow> val \<Rightarrow> string) \<Rightarrow> schema \<Rightarrow> schema \<Rightarrow> validator" where
  "record_v to_key key val = (\<lambda>x h.
     if \<not> typeof_object x \<or> \<not> truthy x \<or> isArray h x
     then (Inl (fail (Desc (Expected ''object''))), h)
     else case alloc h (Object []) of
            (a, h1) \<Rightarrow> record_loop to_key key val x (Ref a) (own_keys h1 x) h1)"

text \<open>
  The loop of \<open>array\<close> reads \<open>x.length\<close> again in every round.  It ends
  because an array has fewer than \<open>2^32\<close> elements.
\<close>

function array_loop :: "schema \<Rightarrow> val \<Rightarrow> nat \<Rightarrow> heap \<Rightarrow> outcome \<times> heap" where
  "array_loop schema x i h =
     (if i < array_length h x
      then case validate (getprop h x (show_nat i)) schema h of
             (Inl e, h') \<Rightarrow> (Inl (rethrow e (Index i)), h')
           | (Inr v, h') \<Rightarrow> array_loop schema x (Suc i) (setprop h' x (show_nat i) v)
      else (Inr x, h))"
  by pat_completeness auto
termination
  by (relation "measure (\<lambda>(schema, x, i, h). 4294967295 - i)")
     (auto simp: array_length_def split: val.splits option.splits obj.splits)

declare array_loop.simps [simp del]

definition array :: "schema \<Rightarrow> validator" where
  "array schema = (\<lambda>x h.
     if \<not> isArray h x then (Inl (fail (Desc (Expected ''array''))), h)
     else array_loop schema x 0 h)"

definition any :: validator where
  "any = (\<lambda>x h. (Inr x, h))"

definition never :: validator where
  "never = (\<lambda>x h. (Inl (fail (Desc (Expected ''never''))), h))"

subsection \<open>Logical combinators\<close>

text \<open>\<open>schemas.reduce(validate, x)\<close>\<close>

fun allOf_loop :: "schema list \<Rightarrow> val \<Rightarrow> heap \<Rightarrow> outcome \<times> heap" where
  "allOf_loop [] x h = (Inr x, h)"
| "allOf_loop (s # ss) x h =
     (case validate x s h of
        (Inl e, h') \<Rightarrow> (Inl e, h')
      | (Inr r, h') \<Rightarrow> allOf_loop ss r h')"

definition allOf :: "schema list \<Rightarrow> validator" where
  "allOf schemas = (\<lambda>x h. allOf_loop schemas x h)"

fun anyOf_loop :: "schema list \<Rightarrow> val \<Rightarrow> info list \<Rightarrow> heap \<Rightarrow> outcome \<times> heap" where
  "anyOf_loop [] x failures h = (Inl (fail (Desc (Union failures))), h)"
| "anyOf_loop (s # ss) x failures h =
     (case validate x s h of
        (Inr r, h') \<Rightarrow> (Inr r, h')
      | (Inl (ValidationError i), h') \<Rightarrow> anyOf_loop ss x (failures @ [i]) h'
      | (Inl (OtherError t), h') \<Rightarrow> (Inl (OtherError t), h'))"

definition anyOf :: "schema list \<Rightarrow> validator" where
  "anyOf schemas = (\<lambda>x h. anyOf_loop schemas x [] h)"

fun oneOf_loop ::
  "schema list \<Rightarrow> val \<Rightarrow> nat \<Rightarrow> val \<Rightarrow> info list \<Rightarrow> heap \<Rightarrow> outcome \<times> heap" where
  "oneOf_loop [] x count result failures h =
     (if count = 0 then (Inl (fail (Desc (Union failures))), h) else (Inr result, h))"
| "oneOf_loop (s # ss) x count result failures h =
     (case validate x s h of
        (Inl (ValidationError i), h') \<Rightarrow> oneOf_loop ss x count result (failures @ [i]) h'
      | (Inl (OtherError t), h') \<Rightarrow> (Inl (OtherError t), h')
      | (Inr r, h') \<Rightarrow>
          if count + 1 > 1 then (Inl (fail (Desc Unexpected)), h')
          else oneOf_loop ss x (count + 1) r failures h')"

definition oneOf :: "schema list \<Rightarrow> validator" where
  "oneOf schemas = (\<lambda>x h. oneOf_loop schemas x 0 x [] h)"

section \<open>Auxiliary notions for the properties\<close>

text \<open>
  \<open>all_fail ss x h\<close> runs the schemas \<open>ss\<close> on \<open>x\<close> one after the other,
  starting in heap \<open>h\<close>.  When every one of them raises a \<open>ValidationError\<close>
  it gives their error infos, in order, and the heap reached at the end.
\<close>

fun all_fail :: "schema list \<Rightarrow> val \<Rightarrow> heap \<Rightarrow> (info list \<times> heap) option" where
  "all_fail [] x h = Some ([], h)"
| "all_fail (s # ss) x h =
     (case validate x s h of
        (Inl (ValidationError i), h') \<Rightarrow>
          (case all_fail ss x h' of None \<Rightarrow> None | Some (fs, h'') \<Rightarrow> Some (i # fs, h''))
      | _ \<Rightarrow> None)"

text \<open>The schemas of the test suite that the properties refer to.\<close>

definition str :: "string \<Rightarrow> val" where
  "str s = Prim (PStr s)"

definition num :: "rat \<Rightarrow> val" where
  "num q = Prim (PNum (Finite q))"

definition ambiguous :: schema where
  "ambiguous = Fn (oneOf [Fn (anyOf [Lit (PStr ''a''), Lit (PStr ''b'')]),
                          Fn (anyOf [Lit (PStr ''a''), Lit (PStr ''c'')])])"

definition narrowing :: schema where
  "narrowing = Fn (allOf [Fn (anyOf [Lit (PStr ''a''), Lit (PStr ''b''), Lit (PStr ''c'')]),
                          Fn (anyOf [Lit (PStr ''a''), Lit (PStr ''c''), Lit (PStr ''d'')])])"

definition nested :: schema where
  "nested = ObjS [(''a'', ObjS [(''b'', Fn number)])]"

definition pair_schema :: schema where
  "pair_schema = ArrS [Fn number, Fn (string_v None)]"

text \<open>A user function that throws something other than a \<open>ValidationError\<close>.\<close>

definition throwing :: "val callback" where
  "throwing = (\<lambda>x h. (Inl (OtherError ''TypeError''), h))"

text \<open>
  The mapping \<open>x => 2 * x\<close> of the documentation of \<open>map\<close>, on numbers
  (behind \<open>number()\<close> nothing else reaches it).
\<close>

definition twice :: "val callback" where
  "twice = (\<lambda>x h.
     case x of
       Prim (PNum (Finite q)) \<Rightarrow> (Inr (Prim (PNum (Finite (2 * q)))), h)
     | Prim (PNum n) \<Rightarrow> (Inr (Prim (PNum n)), h)
     | _ \<Rightarrow> (Inr (Prim (PNum NaN)), h))"

text \<open>The coercion of a computed property key, on strings.\<close>

definition string_key :: "heap \<Rightarrow> val \<Rightarrow> string" where
  "string_key h k = (case k of Prim (PStr s) \<Rightarrow> s | _ \<Rightarrow> [])"


fun array_written :: "schema \<Rightarrow> val \<Rightarrow> nat \<Rightarrow> nat \<Rightarrow> heap \<Rightarrow> heap option" where
  "array_written schema x i 0 h = Some h"
| "array_written schema x i (Suc n) h =
     (if i < array_length h x
      then case validate (getprop h x (show_nat i)) schema h of
             (Inr v, h') \<Rightarrow> array_written schema x (Suc i) n (setprop h' x (show_nat i) v)
           | (Inl e, h') \<Rightarrow> None
      else None)"


text \<open>
  \<open>leaves a s v\<close>: validating the value \<open>v\<close> with the schema \<open>s\<close> never
  changes the object at address \<open>a\<close>, in whatever heap it runs.
\<close>

definition leaves :: "addr \<Rightarrow> schema \<Rightarrow> val \<Rightarrow> bool" where
  "leaves a s v = (\<forall>h r h'. validate v s h = (r, h') \<longrightarrow> lookup h' a = lookup h a)"

text \<open>Schemas, callbacks and heaps of the examples.\<close>

definition doubling :: schema where
  "doubling = Fn (map_v (Fn number) twice)"










text \<open>\<open>maybe(string(), 5)\<close>\<close>

definition five_if_absent :: schema where
  "five_if_absent = Fn (maybe (Fn (string_v None)) (num 5))"

text \<open>\<open>record(string(), any())\<close> and \<open>record(string(), {a: maybe(number(), 7)})\<close>\<close>

definition any_record :: validator where
  "any_record = record_v string_key (Fn (string_v None)) (Fn any)"




















text \<open>
  The predicate \<open>x => !("b" in x)\<close>; the operator \<open>in\<close> throws a
  \<open>TypeError\<close> on a primitive.
\<close>

definition lacks_b :: "bool callback" where
  "lacks_b = (\<lambda>x h.
     case x of
       Prim p \<Rightarrow> (Inl (OtherError ''TypeError''), h)
     | Ref a \<Rightarrow> (Inr (\<not> has_key h x ''b''), h))"

text \<open>\<open>allOf(filter(any(), x => !("b" in x)), {b: maybe(string())})\<close>\<close>

definition fresh_b :: schema where
  "fresh_b = Fn (allOf [Fn (filter_v (Fn any) lacks_b None),
                        ObjS [(''b'', Fn (maybe (Fn (string_v None)) undefined_v))]])"

text \<open>
  The regular expression \<open>/a/g\<close>.  Its object lives in the heap at address
  \<open>a\<close>, with the property \<open>lastIndex\<close> (a number) as its only modelled
  property.  \<open>test\<close> searches for the letter from \<open>lastIndex\<close> on; a match
  moves \<open>lastIndex\<close> behind it, a failure sets it back to \<open>0\<close>.
\<close>

fun find_a :: "string \<Rightarrow> nat \<Rightarrow> nat option" where
  "find_a [] j = None"
| "find_a (c # cs) j = (if c = CHR ''a'' then Some j else find_a cs (Suc j))"

definition last_index :: "heap \<Rightarrow> addr \<Rightarrow> nat" where
  "last_index h a =
     (case getprop h (Ref a) ''lastIndex'' of
        Prim (PNum (Finite q)) \<Rightarrow> nat \<lfloor>q\<rfloor>
      | _ \<Rightarrow> 0)"

definition global_a_test :: "addr \<Rightarrow> bool callback" where
  "global_a_test a = (\<lambda>x h.
     case x of
       Prim (PStr s) \<Rightarrow>
         (case (if last_index h a > length s then None
                else find_a (drop (last_index h a) s) (last_index h a)) of
            Some j \<Rightarrow> (Inr True, setprop h (Ref a) ''lastIndex'' (num (of_nat (Suc j))))
          | None \<Rightarrow> (Inr False, setprop h (Ref a) ''lastIndex'' (num 0)))
     | _ \<Rightarrow> (Inr False, h))"

definition global_a :: "addr \<Rightarrow> regexp" where
  "global_a a = \<lparr>text_of = ''/a/g'', test = global_a_test a\<rparr>"

text \<open>
  Two heaps read the same when they have the same addresses, equal arrays, and
  objects whose every property reads the same (an absent property reads as
  \<open>undefined\<close>).
\<close>

definition read_field :: "(string \<times> val) list \<Rightarrow> string \<Rightarrow> val" where
  "read_field kvs k = (case map_of kvs k of None \<Rightarrow> undefined_v | Some v \<Rightarrow> v)"

fun same_object :: "obj \<Rightarrow> obj \<Rightarrow> bool" where
  "same_object (Array vs) (Array ws) = (vs = ws)"
| "same_object (Object kvs) (Object kws) = (\<forall>k. read_field kvs k = read_field kws k)"
| "same_object (Array vs) (Object kws) = False"
| "same_object (Object kvs) (Array ws) = False"

definition same_reads :: "heap \<Rightarrow> heap \<Rightarrow> bool" where
  "same_reads h g = list_all2 same_object h g"

text \<open>An assignment \<open>x[k] = v\<close> that does not extend an array.\<close>

definition in_range :: "heap \<Rightarrow> val \<Rightarrow> string \<Rightarrow> bool" where
  "in_range h x k =
     (case x of
        Prim p \<Rightarrow> True
      | Ref a \<Rightarrow>
          (case lookup h a of
             Some (Array vs) \<Rightarrow> (case array_index k of None \<Rightarrow> True | Some i \<Rightarrow> i < length vs)
           | _ \<Rightarrow> True))"

text \<open>
  A validator is stable when it returns its input on success, leaves a heap
  that reads the same, and gives the same outcome in heaps that read the same.
  A callback is steady when it gives the same answer in heaps that read the
  same and leaves a heap that reads the same.
\<close>

definition stable :: "validator \<Rightarrow> bool" where
  "stable f =
     (\<forall>x h g. same_reads h g \<longrightarrow>
        fst (f x g) = fst (f x h) \<and> same_reads h (snd (f x g)) \<and>
        (\<forall>w. fst (f x h) = Inr w \<longrightarrow> w = x))"

definition steady :: "'a callback \<Rightarrow> bool" where
  "steady p =
     (\<forall>x h g. same_reads h g \<longrightarrow>
        fst (p x g) = fst (p x h) \<and> same_reads h (snd (p x g)))"

text \<open>
  The schemas that keep their input: literals, object and array shapes, and
  among the validators of the library \<open>string\<close>
  (with a regular expression only if its \<open>test\<close> is steady), \<open>number\<close>,
  \<open>integer\<close>, \<open>boolean\<close>, \<open>any\<close>, \<open>never\<close>, and \<open>struct\<close>, \<open>array\<close>,
  \<open>maybe\<close> without a default, \<open>allOf\<close>, \<open>anyOf\<close>, \<open>oneOf\<close> and \<open>filter\<close>
  with a steady predicate over such schemas.
\<close>

inductive plain :: "schema \<Rightarrow> bool" where
  plain_Lit: "plain (Lit p)"
| plain_ObjS: "(\<And>s. s \<in> snd ` set flds \<Longrightarrow> plain s) \<Longrightarrow> plain (ObjS flds)"
| plain_ArrS: "(\<And>s. s \<in> set elems \<Longrightarrow> plain s) \<Longrightarrow> plain (ArrS elems)"
| plain_string: "plain (Fn (string_v None))"
| plain_matching: "steady (test r) \<Longrightarrow> plain (Fn (string_v (Some r)))"
| plain_number: "plain (Fn number)"
| plain_integer: "plain (Fn integer)"
| plain_boolean: "plain (Fn boolean)"
| plain_any: "plain (Fn any)"
| plain_never: "plain (Fn never)"
| plain_struct: "plain s \<Longrightarrow> plain (Fn (struct s))"
| plain_array: "plain s \<Longrightarrow> plain (Fn (array s))"
| plain_maybe: "plain s \<Longrightarrow> plain (Fn (maybe s undefined_v))"
| plain_filter: "plain s \<Longrightarrow> steady p \<Longrightarrow> plain (Fn (filter_v s p m))"
| plain_allOf: "(\<And>s. s \<in> set ss \<Longrightarrow> plain s) \<Longrightarrow> plain (Fn (allOf ss))"
| plain_anyOf: "(\<And>s. s \<in> set ss \<Longrightarrow> plain s) \<Longrightarrow> plain (Fn (anyOf ss))"
| plain_oneOf: "(\<And>s. s \<in> set ss \<Longrightarrow> plain s) \<Longrightarrow> plain (Fn (oneOf ss))"

text \<open>
  The predicate \<open>x => x.a === 1\<close>, the regular expression \<open>/a/\<close>, whose
  \<open>test\<close> keeps no state, and the schema
  \<open>filter({a: number(), b: maybe(string()), c: string(/a/)}, x => x.a === 1)\<close>.
\<close>

definition a_is_one :: "bool callback" where
  "a_is_one = (\<lambda>x h. (Inr (getprop h x ''a'' = num 1), h))"

definition plain_a :: regexp where
  "plain_a = \<lparr>text_of = ''/a/'',
     test = (\<lambda>x h. (Inr (case x of Prim (PStr s) \<Rightarrow> find_a s 0 \<noteq> None | _ \<Rightarrow> False), h))\<rparr>"

definition checked_fields :: "(string \<times> schema) list" where
  "checked_fields =
     [(''a'', Fn number), (''b'', Fn (maybe (Fn (string_v None)) undefined_v)),
      (''c'', Fn (string_v (Some plain_a)))]"

definition checked :: schema where
  "checked = Fn (filter_v (ObjS checked_fields) a_is_one None)"

definition not_yet_checked :: heap where
  "not_yet_checked = [Object [(''a'', num 1), (''c'', str ''a'')]]"

definition checked_once :: heap where
  "checked_once = [Object [(''a'', num 1), (''c'', str ''a''), (''b'', undefined_v)]]"
section \<open>Evaluation rules\<close>

lemmas shape_defs =
  shape_mismatch_def typeof_object_def truthy_def isArray_def array_length_def lookup_def

lemmas prop_defs =
  getprop_def setprop_def put_field_def proto_key_def array_index_def digit_value_def
  digit_char_def show_nat.simps undefined_v_def

lemmas scalar_defs =
  number_def integer_def boolean_def string_v_def is_string_def string_expected_def any_def
  never_def isFinite_def isInteger_def strict_equals_def str_def num_def

section \<open>anyOf, oneOf and allOf\<close>

lemma anyOf_loop_all_fail:
  "all_fail pre x h = Some (fs, h1) \<Longrightarrow>
   anyOf_loop (pre @ rest) x acc h = anyOf_loop rest x (acc @ fs) h1"
proof (induction pre arbitrary: h acc fs)
  case Nil
  then show ?case by simp
next
  case (Cons s pre)
  then show ?case
    by (auto split: prod.splits sum.splits exn.splits option.splits)
qed

lemma oneOf_loop_all_fail:
  "all_fail pre x h = Some (fs, h1) \<Longrightarrow>
   oneOf_loop (pre @ rest) x c r acc h = oneOf_loop rest x c r (acc @ fs) h1"
proof (induction pre arbitrary: h acc fs)
  case Nil
  then show ?case by simp
next
  case (Cons s pre)
  then show ?case
    by (auto split: prod.splits sum.splits exn.splits option.splits)
qed

lemma allOf_loop_append:
  "allOf_loop (pre @ post) x h =
     (case allOf_loop pre x h of
        (Inl e, h') \<Rightarrow> (Inl e, h')
      | (Inr r, h') \<Rightarrow> allOf_loop post r h')"
  by (induction pre arbitrary: x h) (auto split: prod.splits sum.splits)

text \<open>
  Claim C1.  \<open>anyOf\<close> tries its schemas in argument order.  When the schemas
  before \<open>s\<close> all fail with a \<open>ValidationError\<close> and \<open>s\<close> succeeds, the result of
  \<open>s\<close> is returned, whatever schemas follow (they are not run).  When all schemas
  fail, a \<open>union\<close> error with an empty path is raised whose failures are the
  error infos of the alternatives, in order.
\<close>

theorem anyOf_first_match:
  "(all_fail pre x h = Some (fs, h1) \<and> validate x s h1 = (Inr r, h2)
      \<longrightarrow> anyOf (pre @ s # post) x h = (Inr r, h2)) \<and>
   (all_fail ss x h = Some (fs', h')
      \<longrightarrow> anyOf ss x h = (Inl (ValidationError (Info (Union fs') [])), h'))"
proof (intro conjI impI)
  assume "all_fail pre x h = Some (fs, h1) \<and> validate x s h1 = (Inr r, h2)"
  then show "anyOf (pre @ s # post) x h = (Inr r, h2)"
    by (simp add: anyOf_def anyOf_loop_all_fail)
next
  assume "all_fail ss x h = Some (fs', h')"
  from anyOf_loop_all_fail[OF this, of "[]" "[]"]
  show "anyOf ss x h = (Inl (ValidationError (Info (Union fs') [])), h')"
    by (simp add: anyOf_def)
qed

theorem anyOf_first_match_witness:
  "all_fail [Lit (PStr ''a'')] (str ''b'') [] =
     Some ([Info (ExpectedJSON (PStr ''a'')) []], []) \<and>
   validate (str ''b'') (Lit (PStr ''b'')) [] = (Inr (str ''b''), []) \<and>
   anyOf ([Lit (PStr ''a'')] @ Lit (PStr ''b'') # [Lit (PStr ''b''), Fn never]) (str ''b'') [] =
     (Inr (str ''b''), []) \<and>
   all_fail [Lit (PStr ''a''), Fn never] (str ''b'') [] =
     Some ([Info (ExpectedJSON (PStr ''a'')) [], Info (Expected ''never'') []], []) \<and>
   anyOf [Lit (PStr ''a''), Fn never] (str ''b'') [] =
     (Inl (ValidationError (Info (Union
        [Info (ExpectedJSON (PStr ''a'')) [], Info (Expected ''never'') []]) [])), [])"
proof -
  have a: "all_fail [Lit (PStr ''a'')] (str ''b'') [] =
     Some ([Info (ExpectedJSON (PStr ''a'')) []], [])"
    by (simp add: scalar_defs)
  have b: "validate (str ''b'') (Lit (PStr ''b'')) [] = (Inr (str ''b''), [])"
    by (simp add: scalar_defs)
  have c: "all_fail [Lit (PStr ''a''), Fn never] (str ''b'') [] =
     Some ([Info (ExpectedJSON (PStr ''a'')) [], Info (Expected ''never'') []], [])"
    by (simp add: scalar_defs)
  from anyOf_first_match[where pre = "[Lit (PStr ''a'')]" and x = "str ''b''" and h = "[]"
      and fs = "[Info (ExpectedJSON (PStr ''a'')) []]" and ?h1.0 = "[]" and s = "Lit (PStr ''b'')"
      and r = "str ''b''" and ?h2.0 = "[]" and post = "[Lit (PStr ''b''), Fn never]"
      and ss = "[Lit (PStr ''a''), Fn never]"
      and fs' = "[Info (ExpectedJSON (PStr ''a'')) [], Info (Expected ''never'') []]"
      and h' = "[]"] a b c
  show ?thesis by blast
qed

text \<open>
  Claim C2.  \<open>oneOf\<close> counts successes.  With exactly one succeeding schema
  (all others failing with a \<open>ValidationError\<close>) it returns that schema's result;
  with none it raises a \<open>union\<close> error holding every alternative's failure; at
  the second success it raises \<open>unexpected\<close>, whatever schemas remain.  The
  schema \<open>oneOf(anyOf("a","b"), anyOf("a","c"))\<close> fails with \<open>unexpected\<close> on
  \<open>"a"\<close> and returns \<open>"b"\<close> on \<open>"b"\<close>.
\<close>

theorem oneOf_exactly_one:
  "(all_fail pre x h = Some (f1, h1) \<and> validate x s h1 = (Inr r, h2) \<and>
    all_fail post x h2 = Some (f2, h3)
      \<longrightarrow> oneOf (pre @ s # post) x h = (Inr r, h3)) \<and>
   (all_fail ss x h = Some (fs, h')
      \<longrightarrow> oneOf ss x h = (Inl (ValidationError (Info (Union fs) [])), h')) \<and>
   (all_fail pre x h = Some (f1, h1) \<and> validate x s1 h1 = (Inr r1, g2) \<and>
    all_fail mid x g2 = Some (f3, g3) \<and> validate x s2 g3 = (Inr r2, g4)
      \<longrightarrow> oneOf (pre @ s1 # mid @ s2 # rest) x h =
            (Inl (ValidationError (Info Unexpected [])), g4)) \<and>
   validate (str ''a'') ambiguous g = (Inl (ValidationError (Info Unexpected [])), g) \<and>
   validate (str ''b'') ambiguous g = (Inr (str ''b''), g)"
proof (intro conjI impI)
  assume "all_fail pre x h = Some (f1, h1) \<and> validate x s h1 = (Inr r, h2) \<and>
    all_fail post x h2 = Some (f2, h3)"
  then show "oneOf (pre @ s # post) x h = (Inr r, h3)"
    using oneOf_loop_all_fail[of post x h2 f2 h3 "[]" "Suc 0" r f1]
    by (simp add: oneOf_def oneOf_loop_all_fail)
next
  assume "all_fail ss x h = Some (fs, h')"
  from oneOf_loop_all_fail[OF this, of "[]" 0 x "[]"]
  show "oneOf ss x h = (Inl (ValidationError (Info (Union fs) [])), h')"
    by (simp add: oneOf_def)
next
  assume "all_fail pre x h = Some (f1, h1) \<and> validate x s1 h1 = (Inr r1, g2) \<and>
    all_fail mid x g2 = Some (f3, g3) \<and> validate x s2 g3 = (Inr r2, g4)"
  then show "oneOf (pre @ s1 # mid @ s2 # rest) x h =
      (Inl (ValidationError (Info Unexpected [])), g4)"
    by (simp add: oneOf_def oneOf_loop_all_fail)
qed (simp_all add: ambiguous_def oneOf_def anyOf_def scalar_defs)

theorem oneOf_exactly_one_witness:
  "all_fail [Fn never] (str ''b'') [] = Some ([Info (Expected ''never'') []], []) \<and>
   validate (str ''b'') (Lit (PStr ''b'')) [] = (Inr (str ''b''), []) \<and>
   all_fail [Lit (PStr ''c'')] (str ''b'') [] = Some ([Info (ExpectedJSON (PStr ''c'')) []], []) \<and>
   oneOf ([Fn never] @ Lit (PStr ''b'') # [Lit (PStr ''c'')]) (str ''b'') [] = (Inr (str ''b''), []) \<and>
   oneOf [Fn never] (str ''b'') [] =
     (Inl (ValidationError (Info (Union [Info (Expected ''never'') []]) [])), []) \<and>
   validate (str ''b'') (Fn any) [] = (Inr (str ''b''), []) \<and>
   oneOf ([Fn never] @ Lit (PStr ''b'') # [Lit (PStr ''c'')] @ Fn any # [Fn (map_v (Fn any) throwing)])
      (str ''b'') [] = (Inl (ValidationError (Info Unexpected [])), [])"
proof -
  have a: "all_fail [Fn never] (str ''b'') [] = Some ([Info (Expected ''never'') []], [])"
    by (simp add: scalar_defs)
  have b: "validate (str ''b'') (Lit (PStr ''b'')) [] = (Inr (str ''b''), [])"
    by (simp add: scalar_defs)
  have c: "all_fail [Lit (PStr ''c'')] (str ''b'') [] =
      Some ([Info (ExpectedJSON (PStr ''c'')) []], [])"
    by (simp add: scalar_defs)
  have d: "validate (str ''b'') (Fn any) [] = (Inr (str ''b''), [])"
    by (simp add: scalar_defs)
  from oneOf_exactly_one[where pre = "[Fn never]" and x = "str ''b''" and h = "[]"
      and ?f1.0 = "[Info (Expected ''never'') []]" and ?h1.0 = "[]" and s = "Lit (PStr ''b'')"
      and r = "str ''b''" and ?h2.0 = "[]" and post = "[Lit (PStr ''c'')]"
      and ?f2.0 = "[Info (ExpectedJSON (PStr ''c'')) []]" and ?h3.0 = "[]"
      and ss = "[Fn never]" and fs = "[Info (Expected ''never'') []]" and h' = "[]"
      and ?s1.0 = "Lit (PStr ''b'')" and ?r1.0 = "str ''b''" and ?g2.0 = "[]"
      and mid = "[Lit (PStr ''c'')]" and ?f3.0 = "[Info (ExpectedJSON (PStr ''c'')) []]"
      and ?g3.0 = "[]" and ?s2.0 = "Fn any" and ?r2.0 = "str ''b''" and ?g4.0 = "[]"
      and rest = "[Fn (map_v (Fn any) throwing)]"] a b c d
  show ?thesis by blast
qed

text \<open>
  Claim C9.  \<open>anyOf\<close> and \<open>oneOf\<close> only collect \<open>ValidationError\<close>s.  When an
  alternative throws anything else, that exception is the outcome of the whole
  validator, whatever schemas follow, and neither a \<open>union\<close> nor an
  \<open>unexpected\<close> error is made.  For \<open>oneOf\<close> this holds before the first
  success and after it.
\<close>

theorem other_exception_propagates:
  "(all_fail pre x h = Some (fs, h1) \<and> validate x s h1 = (Inl (OtherError t), h2)
      \<longrightarrow> anyOf (pre @ s # post) x h = (Inl (OtherError t), h2)) \<and>
   (all_fail pre x h = Some (fs, h1) \<and> validate x s h1 = (Inl (OtherError t), h2)
      \<longrightarrow> oneOf (pre @ s # post) x h = (Inl (OtherError t), h2)) \<and>
   (all_fail pre x h = Some (fs, h1) \<and> validate x s1 h1 = (Inr r1, g2) \<and>
    all_fail mid x g2 = Some (f3, g3) \<and> validate x s g3 = (Inl (OtherError t), g4)
      \<longrightarrow> oneOf (pre @ s1 # mid @ s # post) x h = (Inl (OtherError t), g4))"
  by (simp add: anyOf_def oneOf_def anyOf_loop_all_fail oneOf_loop_all_fail)

theorem other_exception_propagates_witness:
  "all_fail [Fn never] (str ''b'') [] = Some ([Info (Expected ''never'') []], []) \<and>
   validate (str ''b'') (Fn (map_v (Fn any) throwing)) [] = (Inl (OtherError ''TypeError''), []) \<and>
   anyOf ([Fn never] @ Fn (map_v (Fn any) throwing) # [Fn any]) (str ''b'') [] =
     (Inl (OtherError ''TypeError''), []) \<and>
   oneOf ([Fn never] @ Fn (map_v (Fn any) throwing) # [Fn any]) (str ''b'') [] =
     (Inl (OtherError ''TypeError''), []) \<and>
   validate (str ''b'') (Lit (PStr ''b'')) [] = (Inr (str ''b''), []) \<and>
   oneOf ([Fn never] @ Lit (PStr ''b'') # [Fn never] @ Fn (map_v (Fn any) throwing) # [Fn any])
      (str ''b'') [] = (Inl (OtherError ''TypeError''), [])"
proof -
  have a: "all_fail [Fn never] (str ''b'') [] = Some ([Info (Expected ''never'') []], [])"
    by (simp add: scalar_defs)
  have b: "validate (str ''b'') (Fn (map_v (Fn any) throwing)) [] =
      (Inl (OtherError ''TypeError''), [])"
    by (simp add: scalar_defs map_v_def throwing_def)
  have c: "validate (str ''b'') (Lit (PStr ''b'')) [] = (Inr (str ''b''), [])"
    by (simp add: scalar_defs)
  from other_exception_propagates[where pre = "[Fn never]" and x = "str ''b''" and h = "[]"
      and fs = "[Info (Expected ''never'') []]" and ?h1.0 = "[]"
      and s = "Fn (map_v (Fn any) throwing)" and t = "''TypeError''" and ?h2.0 = "[]"
      and post = "[Fn any]" and ?s1.0 = "Lit (PStr ''b'')" and ?r1.0 = "str ''b''"
      and ?g2.0 = "[]" and mid = "[Fn never]" and ?f3.0 = "[Info (Expected ''never'') []]"
      and ?g3.0 = "[]" and ?g4.0 = "[]"] a b c
  show ?thesis by blast
qed

text \<open>
  Claim C7.  \<open>allOf\<close> is a left fold of \<open>validate\<close>: without schemas it returns
  its input; a further schema validates the result of the schemas before it,
  and its result is the result of the whole; a failure of one schema is the
  outcome of the whole, unchanged, whatever schemas follow.  The schema
  \<open>allOf(anyOf("a","b","c"), anyOf("a","c","d"))\<close> accepts \<open>"a"\<close> and \<open>"c"\<close> and
  no other value; in particular it rejects \<open>"b"\<close>, \<open>"d"\<close>, \<open>"e"\<close> and \<open>""\<close>.
\<close>

theorem allOf_left_fold:
  "allOf [] x h = (Inr x, h) \<and>
   allOf (ss @ [s]) x h =
     (case allOf ss x h of
        (Inl e, h') \<Rightarrow> (Inl e, h')
      | (Inr r, h') \<Rightarrow> validate r s h') \<and>
   (allOf pre x h = (Inr r, h1) \<and> validate r s h1 = (Inl e, h2)
      \<longrightarrow> allOf (pre @ s # post) x h = (Inl e, h2)) \<and>
   (\<exists>r h'. validate y narrowing g = (Inr r, h')) = (y = str ''a'' \<or> y = str ''c'') \<and>
   validate (str ''a'') narrowing g = (Inr (str ''a''), g) \<and>
   validate (str ''c'') narrowing g = (Inr (str ''c''), g) \<and>
   (\<exists>i. validate (str ''b'') narrowing g = (Inl (ValidationError i), g)) \<and>
   (\<exists>i. validate (str ''d'') narrowing g = (Inl (ValidationError i), g)) \<and>
   (\<exists>i. validate (str ''e'') narrowing g = (Inl (ValidationError i), g)) \<and>
   (\<exists>i. validate (str '''') narrowing g = (Inl (ValidationError i), g))"
proof (intro conjI impI)
  show "allOf (ss @ [s]) x h =
     (case allOf ss x h of (Inl e, h') \<Rightarrow> (Inl e, h') | (Inr r, h') \<Rightarrow> validate r s h')"
    by (simp add: allOf_def allOf_loop_append split: prod.splits sum.splits)
next
  assume "allOf pre x h = (Inr r, h1) \<and> validate r s h1 = (Inl e, h2)"
  then show "allOf (pre @ s # post) x h = (Inl e, h2)"
    by (simp add: allOf_def allOf_loop_append)
next
  show "(\<exists>r h'. validate y narrowing g = (Inr r, h')) = (y = str ''a'' \<or> y = str ''c'')"
    by (auto simp: narrowing_def allOf_def anyOf_def scalar_defs)
qed (simp_all add: narrowing_def allOf_def anyOf_def scalar_defs)

theorem allOf_left_fold_witness:
  "allOf [Fn any] (str ''b'') [] = (Inr (str ''b''), []) \<and>
   validate (str ''b'') (Fn never) [] = (Inl (ValidationError (Info (Expected ''never'') [])), []) \<and>
   allOf ([Fn any] @ Fn never # [Fn (map_v (Fn any) throwing)]) (str ''b'') [] =
     (Inl (ValidationError (Info (Expected ''never'') [])), [])"
proof -
  have a: "allOf [Fn any] (str ''b'') [] = (Inr (str ''b''), [])"
    by (simp add: allOf_def scalar_defs)
  have b: "validate (str ''b'') (Fn never) [] =
      (Inl (ValidationError (Info (Expected ''never'') [])), [])"
    by (simp add: scalar_defs)
  from allOf_left_fold[where pre = "[Fn any]" and x = "str ''b''" and h = "[]"
      and r = "str ''b''" and ?h1.0 = "[]" and s = "Fn never"
      and e = "ValidationError (Info (Expected ''never'') [])" and ?h2.0 = "[]"
      and post = "[Fn (map_v (Fn any) throwing)]"] a b
  show ?thesis by blast
qed

section \<open>Structural validation\<close>

lemma validate_fields_append:
  "validate_fields x (pre @ post) h =
     (case validate_fields x pre h of
        (Inl e, h') \<Rightarrow> (Inl e, h')
      | (Inr r, h') \<Rightarrow> validate_fields x post h')"
  by (induction pre arbitrary: h) (auto split: prod.splits sum.splits)

lemma validate_fields_result:
  "validate_fields x flds h = (Inr r, h') \<Longrightarrow> r = x"
  by (induction flds arbitrary: h) (auto split: prod.splits sum.splits)


lemma length_index_keys [simp]:
  "length (index_keys n) = n"
  by (simp add: index_keys_def)

text \<open>
  Claim C3.  For the schema \<open>{a: {b: number()}}\<close> and the input
  \<open>{a: {b: "x"}}\<close> validation fails with a \<open>ValidationError\<close> whose path is
  \<open>["b","a"]\<close>, innermost segment first, so that the path read backwards is
  \<open>a\<close> then \<open>b\<close>.  In general a frame of an object or array schema appends
  its key to the path of a failure of the field it was validating.
\<close>

theorem path_innermost_first:
  "validate (Ref 0) nested [Object [(''a'', Ref 1)], Object [(''b'', str ''x'')]] =
     (Inl (ValidationError (Info (Expected ''finite number'') [Key ''b'', Key ''a''])),
      [Object [(''a'', Ref 1)], Object [(''b'', str ''x'')]]) \<and>
   rev [Key ''b'', Key ''a''] = [Key ''a'', Key ''b''] \<and>
   (\<not> shape_mismatch h x is_array (Suc (length rest)) \<and>
    validate (getprop h x k) s h = (Inl (ValidationError i), h')
      \<longrightarrow> validate x (Keyed is_array ((k, s) # rest)) h =
            (Inl (ValidationError (Info (descr i) (path i @ [Key k]))), h'))"
  by (simp add: nested_def ObjS_def shape_defs getprop_def scalar_defs)

theorem path_innermost_first_witness:
  "\<not> shape_mismatch [Object [(''b'', str ''x'')]] (Ref 0) False (Suc (length ([] :: (string \<times> schema) list))) \<and>
   validate (getprop [Object [(''b'', str ''x'')]] (Ref 0) ''b'') (Fn number) [Object [(''b'', str ''x'')]] =
     (Inl (ValidationError (Info (Expected ''finite number'') [])), [Object [(''b'', str ''x'')]]) \<and>
   validate (Ref 0) (Keyed False [(''b'', Fn number)]) [Object [(''b'', str ''x'')]] =
     (Inl (ValidationError (Info (Expected ''finite number'') [Key ''b''])),
      [Object [(''b'', str ''x'')]])"
proof -
  have a: "\<not> shape_mismatch [Object [(''b'', str ''x'')]] (Ref 0) False
      (Suc (length ([] :: (string \<times> schema) list)))"
    by (simp add: shape_defs)
  have b: "validate (getprop [Object [(''b'', str ''x'')]] (Ref 0) ''b'') (Fn number)
      [Object [(''b'', str ''x'')]] =
     (Inl (ValidationError (Info (Expected ''finite number'') [])), [Object [(''b'', str ''x'')]])"
    by (simp add: getprop_def lookup_def scalar_defs)
  from path_innermost_first[where h = "[Object [(''b'', str ''x'')]]" and x = "Ref 0"
      and is_array = False and rest = "[]" and k = "''b''" and s = "Fn number"
      and i = "Info (Expected ''finite number'') []" and h' = "[Object [(''b'', str ''x'')]]"] a b
  show ?thesis by simp
qed

text \<open>
  Claim C6.  With an array schema of \<open>N\<close> elements, an input that is not an
  array of length \<open>N\<close> fails with the \<open>expected\<close> text \<open>array[N]\<close> and
  an empty path, so validation can only succeed on arrays of length \<open>N\<close>.
  The schema \<open>[number(), string()]\<close> fails on \<open>[0,"",0]\<close> with
  \<open>array[2]\<close> and returns \<open>[0,""]\<close> itself, unchanged.
\<close>

theorem array_schema_arity:
  "(\<not> (isArray h x \<and> array_length h x = length elems)
      \<longrightarrow> validate x (ArrS elems) h =
            (Inl (ValidationError (Info (Expected (''array['' @ show_nat (length elems) @ '']'')) [])), h)) \<and>
   (validate x (ArrS elems) h = (Inr r, h')
      \<longrightarrow> isArray h x \<and> array_length h x = length elems) \<and>
   validate (Ref 0) pair_schema [Array [num 0, str '''', num 0]] =
     (Inl (ValidationError (Info (Expected ''array[2]'') [])), [Array [num 0, str '''', num 0]]) \<and>
   validate (Ref 0) pair_schema [Array [num 0, str '''']] =
     (Inr (Ref 0), [Array [num 0, str '''']])"
proof (intro conjI impI)
  assume "\<not> (isArray h x \<and> array_length h x = length elems)"
  then show "validate x (ArrS elems) h =
      (Inl (ValidationError (Info (Expected (''array['' @ show_nat (length elems) @ '']'')) [])), h)"
    by (auto simp: ArrS_def shape_mismatch_def)
next
  assume ok: "validate x (ArrS elems) h = (Inr r, h')"
  show "isArray h x"
    using ok by (auto simp: ArrS_def shape_mismatch_def split: if_splits)
  show "array_length h x = length elems"
    using ok by (auto simp: ArrS_def shape_mismatch_def split: if_splits)
next
  show "validate (Ref 0) pair_schema [Array [num 0, str '''', num 0]] =
     (Inl (ValidationError (Info (Expected ''array[2]'') [])), [Array [num 0, str '''', num 0]])"
    by (simp add: pair_schema_def ArrS_def index_keys_def shape_defs prop_defs)
next
  show "validate (Ref 0) pair_schema [Array [num 0, str '''']] =
     (Inr (Ref 0), [Array [num 0, str '''']])"
    by (simp add: pair_schema_def ArrS_def index_keys_def shape_defs prop_defs scalar_defs)
qed

theorem array_schema_arity_witness:
  "\<not> (isArray [Object []] (Ref 0) \<and> array_length [Object []] (Ref 0) = length [Fn any]) \<and>
   validate (Ref 0) (ArrS [Fn any]) [Object []] =
     (Inl (ValidationError (Info (Expected (''array['' @ show_nat (length [Fn any]) @ '']'')) [])),
      [Object []]) \<and>
   validate (Ref 0) (ArrS [Fn any]) [Array [num 7]] = (Inr (Ref 0), [Array [num 7]]) \<and>
   isArray [Array [num 7]] (Ref 0) \<and> array_length [Array [num 7]] (Ref 0) = length [Fn any]"
proof -
  have a: "\<not> (isArray [Object []] (Ref 0) \<and> array_length [Object []] (Ref 0) = length [Fn any])"
    by (simp add: shape_defs)
  have b: "validate (Ref 0) (ArrS [Fn any]) [Array [num 7]] = (Inr (Ref 0), [Array [num 7]])"
    by (simp add: ArrS_def index_keys_def shape_defs prop_defs scalar_defs)
  from array_schema_arity[where h = "[Object []]" and x = "Ref 0" and elems = "[Fn any]"] a
  have c: "validate (Ref 0) (ArrS [Fn any]) [Object []] =
     (Inl (ValidationError (Info (Expected (''array['' @ show_nat (length [Fn any]) @ '']'')) [])),
      [Object []])"
    by blast
  from array_schema_arity[where h = "[Array [num 7]]" and x = "Ref 0" and elems = "[Fn any]"
      and r = "Ref 0" and h' = "[Array [num 7]]"] b
  have d: "isArray [Array [num 7]] (Ref 0) \<and> array_length [Array [num 7]] (Ref 0) = length [Fn any]"
    by blast
  from a b c d show ?thesis by blast
qed

section \<open>Index keys\<close>

lemma digit_value_digit_char: "d < 10 \<Longrightarrow> digit_value (digit_char d) = Some d"
proof -
  assume "d < 10"
  then have "d = 0 \<or> d = 1 \<or> d = 2 \<or> d = 3 \<or> d = 4 \<or> d = 5 \<or> d = 6 \<or> d = 7 \<or>
      d = 8 \<or> d = 9"
    by presburger
  then show ?thesis
    by (elim disjE) (simp_all add: digit_value_def digit_char_def)
qed

lemma parse_nat_snoc:
  "parse_nat acc (cs @ [c]) =
     (case parse_nat acc cs of
        None \<Rightarrow> None
      | Some m \<Rightarrow> (case digit_value c of None \<Rightarrow> None | Some d \<Rightarrow> Some (10 * m + d)))"
  by (induction cs arbitrary: acc) (auto split: option.splits)

lemma parse_nat_show_nat: "parse_nat 0 (show_nat n) = Some n"
proof (induction n rule: show_nat.induct)
  case (1 n)
  show ?case
  proof (cases "n < 10")
    case True
    then show ?thesis
      by (subst show_nat.simps) (simp add: digit_value_digit_char)
  next
    case False
    with 1 have "parse_nat 0 (show_nat (n div 10)) = Some (n div 10)" by simp
    with False show ?thesis
      by (subst show_nat.simps) (simp add: parse_nat_snoc digit_value_digit_char)
  qed
qed

lemma show_nat_not_empty: "show_nat n \<noteq> []"
  by (subst show_nat.simps) simp

lemma show_nat_inject: "show_nat m = show_nat n \<Longrightarrow> m = n"
proof -
  assume "show_nat m = show_nat n"
  then have "parse_nat 0 (show_nat m) = parse_nat 0 (show_nat n)" by simp
  then show "m = n" by (simp add: parse_nat_show_nat)
qed

lemma array_index_show_nat: "n < 4294967295 \<Longrightarrow> array_index (show_nat n) = Some n"
  by (simp add: array_index_def parse_nat_show_nat show_nat_not_empty)


lemma distinct_index_keys: "distinct (index_keys n)"
  by (auto simp: index_keys_def distinct_map intro: inj_onI show_nat_inject)

lemma in_index_fields:
  "(k, s) \<in> set (zip (index_keys (length elems)) elems) \<longleftrightarrow>
   (\<exists>i < length elems. k = show_nat i \<and> s = elems ! i)"
proof
  assume "(k, s) \<in> set (zip (index_keys (length elems)) elems)"
  then show "\<exists>i < length elems. k = show_nat i \<and> s = elems ! i"
    by (auto simp: set_zip index_keys_def)
next
  assume "\<exists>i < length elems. k = show_nat i \<and> s = elems ! i"
  then obtain i where i: "i < length elems" "k = show_nat i" "s = elems ! i" by blast
  then have "(k, s) = (index_keys (length elems) ! i, elems ! i)"
    by (simp add: index_keys_def)
  with i(1) show "(k, s) \<in> set (zip (index_keys (length elems)) elems)"
    by (auto simp: set_zip index_keys_def intro!: exI[of _ i])
qed

section \<open>Reads and assignments\<close>

lemma length_setprop [simp]:
  "length (setprop h x k v) = length h"
  by (simp add: setprop_def split: val.splits option.splits obj.splits)


lemma map_of_overwrite:
  "map_of (overwrite kvs k v) j =
     (if j = k \<and> k \<in> fst ` set kvs then Some v else map_of kvs j)"
  by (induction kvs) (fastforce simp: image_iff)+

lemma map_of_insert_index:
  "k \<notin> fst ` set kvs \<Longrightarrow>
   map_of (insert_index kvs n k v) j = (if j = k then Some v else map_of kvs j)"
proof (induction kvs)
  case Nil
  then show ?case by simp
next
  case (Cons p kvs)
  obtain i w where p: "p = (i, w)" by (cases p)
  from Cons.prems p have ne: "i \<noteq> k" and notin: "k \<notin> fst ` set kvs" by auto
  from Cons.IH[OF notin] ne show ?case
    by (auto simp: p split: option.splits)
qed

lemma map_of_put_field:
  "map_of (put_field kvs k v) j =
     (if j = k \<and> (k \<noteq> proto_key \<or> k \<in> fst ` set kvs) then Some v else map_of kvs j)"
proof (cases "k \<in> fst ` set kvs")
  case True
  then show ?thesis by (simp add: put_field_def map_of_overwrite)
next
  case False
  then have "map_of kvs k = None" by (simp add: map_of_eq_None_iff)
  with False show ?thesis
    by (auto simp: put_field_def map_of_insert_index map_add_def split: option.splits)
qed










section \<open>Validations that leave an object alone\<close>





lemma leaves_any: "leaves a (Fn any) v"
  by (simp add: leaves_def any_def)


section \<open>The loops as sequences of assignments\<close>



lemma array_loop_written:
  "array_written schema x i n h = Some h1 \<Longrightarrow>
   array_loop schema x i h = array_loop schema x (i + n) h1"
proof (induction n arbitrary: i h)
  case 0
  then show ?case by simp
next
  case (Suc n)
  from Suc.prems obtain v h' where
    lt: "i < array_length h x" and
    ok: "validate (getprop h x (show_nat i)) schema h = (Inr v, h')" and
    rest: "array_written schema x (Suc i) n (setprop h' x (show_nat i) v) = Some h1"
    by (auto split: if_splits prod.splits sum.splits)
  have "array_loop schema x i h = array_loop schema x (Suc i) (setprop h' x (show_nat i) v)"
    using lt ok by (subst array_loop.simps) simp
  also have "\<dots> = array_loop schema x (Suc i + n) h1"
    using rest by (rule Suc.IH)
  finally show ?case by simp
qed

lemma array_length_le: "array_length h x \<le> 4294967295"
  by (simp add: array_length_def split: val.splits option.splits obj.splits)






section \<open>Reference identity\<close>













section \<open>record\<close>






section \<open>Heaps that read the same\<close>

lemma same_object_refl: "same_object ob ob"
  by (cases ob) simp_all

lemma same_object_sym: "same_object p q \<Longrightarrow> same_object q p"
  by (cases p; cases q) simp_all

lemma same_object_trans: "same_object p q \<Longrightarrow> same_object q r \<Longrightarrow> same_object p r"
  by (cases p; cases q; cases r) simp_all

lemma same_reads_refl: "same_reads h h"
  by (simp add: same_reads_def list_all2_conv_all_nth same_object_refl)

lemma same_reads_sym: "same_reads h g \<Longrightarrow> same_reads g h"
  unfolding same_reads_def list_all2_conv_all_nth by (metis same_object_sym)

lemma same_reads_trans: "same_reads h g \<Longrightarrow> same_reads g f \<Longrightarrow> same_reads h f"
  unfolding same_reads_def list_all2_conv_all_nth by (metis same_object_trans)

lemma same_reads_length: "same_reads h g \<Longrightarrow> length h = length g"
  by (simp add: same_reads_def list_all2_lengthD)

lemma same_reads_nth: "same_reads h g \<Longrightarrow> a < length h \<Longrightarrow> same_object (h ! a) (g ! a)"
  by (simp add: same_reads_def list_all2_conv_all_nth)

lemma same_reads_getprop: "same_reads h g \<Longrightarrow> getprop h x k = getprop g x k"
proof (cases x)
  case (Prim p)
  then show ?thesis by (simp add: getprop_def)
next
  case (Ref a)
  assume s: "same_reads h g"
  show ?thesis
  proof (cases "a < length h")
    case False
    with s Ref show ?thesis
      by (simp add: getprop_def lookup_def same_reads_length[OF s, symmetric])
  next
    case True
    from same_reads_nth[OF s True] True Ref same_reads_length[OF s] show ?thesis
      by (cases "h ! a"; cases "g ! a") (simp_all add: getprop_def lookup_def read_field_def)
  qed
qed

lemma same_reads_isArray: "same_reads h g \<Longrightarrow> isArray h x = isArray g x"
proof (cases x)
  case (Prim p)
  then show ?thesis by (simp add: isArray_def)
next
  case (Ref a)
  assume s: "same_reads h g"
  show ?thesis
  proof (cases "a < length h")
    case False
    with s Ref show ?thesis
      by (simp add: isArray_def lookup_def same_reads_length[OF s, symmetric])
  next
    case True
    from same_reads_nth[OF s True] True Ref same_reads_length[OF s] show ?thesis
      by (cases "h ! a"; cases "g ! a") (simp_all add: isArray_def lookup_def)
  qed
qed

lemma same_reads_array_length: "same_reads h g \<Longrightarrow> array_length h x = array_length g x"
proof (cases x)
  case (Prim p)
  then show ?thesis by (simp add: array_length_def)
next
  case (Ref a)
  assume s: "same_reads h g"
  show ?thesis
  proof (cases "a < length h")
    case False
    with s Ref show ?thesis
      by (simp add: array_length_def lookup_def same_reads_length[OF s, symmetric])
  next
    case True
    from same_reads_nth[OF s True] True Ref same_reads_length[OF s] show ?thesis
      by (cases "h ! a"; cases "g ! a") (simp_all add: array_length_def lookup_def)
  qed
qed

lemma same_reads_in_range: "same_reads h g \<Longrightarrow> in_range h x k = in_range g x k"
proof (cases x)
  case (Prim p)
  then show ?thesis by (simp add: in_range_def)
next
  case (Ref a)
  assume s: "same_reads h g"
  show ?thesis
  proof (cases "a < length h")
    case False
    with s Ref show ?thesis
      by (simp add: in_range_def lookup_def same_reads_length[OF s, symmetric])
  next
    case True
    from same_reads_nth[OF s True] True Ref same_reads_length[OF s] show ?thesis
      by (cases "h ! a"; cases "g ! a") (simp_all add: in_range_def lookup_def)
  qed
qed

lemma same_reads_shape:
  "same_reads h g \<Longrightarrow> shape_mismatch h x b n = shape_mismatch g x b n"
  by (simp add: shape_mismatch_def same_reads_isArray[of h g] same_reads_array_length[of h g])

lemma read_put_field:
  "read_field (put_field kvs k v) j =
     (if j = k \<and> (k \<noteq> proto_key \<or> k \<in> fst ` set kvs) then v else read_field kvs j)"
  by (auto simp: read_field_def map_of_put_field)

lemma same_reads_update:
  "same_reads h g \<Longrightarrow> same_object p q \<Longrightarrow> same_reads (h[a := p]) (g[a := q])"
  by (simp add: same_reads_def list_all2_update_cong)

lemma same_reads_replace:
  assumes "a < length h" and "same_object (h ! a) q"
  shows "same_reads h (h[a := q])"
proof -
  have "same_reads (h[a := h ! a]) (h[a := q])"
    using same_reads_refl assms(2) by (rule same_reads_update)
  then show ?thesis by simp
qed

lemma same_reads_write_back:
  assumes r: "in_range h x k"
  shows "same_reads h (setprop h x k (getprop h x k))"
proof (cases x)
  case (Prim p)
  then show ?thesis by (simp add: setprop_def same_reads_refl)
next
  case (Ref a)
  show ?thesis
  proof (cases "a < length h")
    case False
    with Ref show ?thesis by (simp add: setprop_def lookup_def same_reads_refl)
  next
    case True
    show ?thesis
    proof (cases "h ! a")
      case (Object kvs)
      have eq: "setprop h x k (getprop h x k) = h[a := Object (put_field kvs k (read_field kvs k))]"
        using Ref True Object by (simp add: setprop_def getprop_def lookup_def read_field_def)
      have "same_object (h ! a) (Object (put_field kvs k (read_field kvs k)))"
        unfolding Object by (auto simp: read_put_field)
      with True show ?thesis
        unfolding eq by (rule same_reads_replace)
    next
      case (Array vs)
      show ?thesis
      proof (cases "array_index k")
        case None
        have "setprop h x k (getprop h x k) = h"
          using Ref True Array None by (simp add: setprop_def lookup_def)
        then show ?thesis by (simp add: same_reads_refl)
      next
        case (Some i)
        with r Ref True Array have lt: "i < length vs"
          by (simp add: in_range_def lookup_def)
        have "setprop h x k (getprop h x k) = h[a := Array vs]"
          using Ref True Array Some lt by (simp add: setprop_def getprop_def lookup_def)
        also have "\<dots> = h"
          using Array[symmetric] by simp
        finally show ?thesis by (simp add: same_reads_refl)
      qed
    qed
  qed
qed

lemma same_reads_assign:
  assumes s: "same_reads h g" and r: "in_range h x k"
  shows "same_reads h (setprop g x k (getprop h x k))"
proof -
  from s r have "in_range g x k" by (simp add: same_reads_in_range)
  then have "same_reads g (setprop g x k (getprop g x k))" by (rule same_reads_write_back)
  with s show ?thesis
    by (simp add: same_reads_getprop[OF s]) (rule same_reads_trans)
qed

section \<open>Assignments within range\<close>

lemma in_range_element:
  "i < array_length h x \<Longrightarrow> in_range h x (show_nat i)"
  by (auto simp: in_range_def array_length_def array_index_show_nat
      split: val.splits option.splits obj.splits)

lemma in_range_object: "\<not> isArray h x \<Longrightarrow> in_range h x k"
  by (auto simp: in_range_def isArray_def split: val.splits option.splits obj.splits)

section \<open>Stable validators\<close>

lemma stable_step:
  assumes st: "stable (\<lambda>x h. validate x s h)" and s: "same_reads h g"
  shows "\<exists>r h1 g1. validate x s h = (r, h1) \<and> validate x s g = (r, g1) \<and>
           same_reads h h1 \<and> same_reads h g1 \<and> same_reads h1 g1 \<and> (\<forall>w. r = Inr w \<longrightarrow> w = x)"
proof -
  obtain r h1 where a: "validate x s h = (r, h1)" by (cases "validate x s h")
  obtain r' g1 where b: "validate x s g = (r', g1)" by (cases "validate x s g")
  from st[unfolded stable_def, rule_format, OF s, of x] a b
  have c: "r' = r" and d: "same_reads h g1" and e: "\<forall>w. r = Inr w \<longrightarrow> w = x"
    by simp_all
  from st[unfolded stable_def, rule_format, OF same_reads_refl, of x h] a
  have f: "same_reads h h1"
    by simp
  from f d have "same_reads h1 g1"
    by (blast intro: same_reads_sym same_reads_trans)
  with a b c d e f show ?thesis by blast
qed

lemma validate_fields_stable:
  assumes st: "\<And>k s. (k, s) \<in> set flds \<Longrightarrow> stable (\<lambda>x h. validate x s h)"
    and s: "same_reads h g"
    and r: "\<And>k. k \<in> fst ` set flds \<Longrightarrow> in_range h x k"
  shows "fst (validate_fields x flds g) = fst (validate_fields x flds h) \<and>
         same_reads h (snd (validate_fields x flds g))"
  using assms
proof (induction flds arbitrary: h g)
  case Nil
  then show ?case by simp
next
  case (Cons p rest)
  obtain k s where p: "p = (k, s)" by (cases p)
  have sk: "stable (\<lambda>x h. validate x s h)" using Cons.prems(1)[of k s] p by simp
  have gp: "getprop g x k = getprop h x k"
    using Cons.prems(2) by (simp add: same_reads_getprop)
  have rk: "in_range h x k" using Cons.prems(3)[of k] p by simp
  from stable_step[OF sk Cons.prems(2), of "getprop h x k"]
  obtain r1 h1 g1 where
    a: "validate (getprop h x k) s h = (r1, h1)" and
    b: "validate (getprop h x k) s g = (r1, g1)" and
    hh1: "same_reads h h1" and hg1: "same_reads h g1" and
    w: "\<forall>w. r1 = Inr w \<longrightarrow> w = getprop h x k"
    by blast
  show ?case
  proof (cases r1)
    case (Inl e)
    with a b gp hg1 p show ?thesis by simp
  next
    case (Inr v)
    with w have v: "v = getprop h x k" by simp
    have h2: "same_reads h (setprop h1 x k (getprop h x k))"
      using hh1 rk by (rule same_reads_assign)
    have g2: "same_reads h (setprop g1 x k (getprop h x k))"
      using hg1 rk by (rule same_reads_assign)
    from h2 g2 have hg2: "same_reads (setprop h1 x k (getprop h x k)) (setprop g1 x k (getprop h x k))"
      by (blast intro: same_reads_sym same_reads_trans)
    have ih: "fst (validate_fields x rest (setprop g1 x k (getprop h x k))) =
              fst (validate_fields x rest (setprop h1 x k (getprop h x k))) \<and>
              same_reads (setprop h1 x k (getprop h x k))
                (snd (validate_fields x rest (setprop g1 x k (getprop h x k))))"
    proof (rule Cons.IH)
      show "stable (\<lambda>x h. validate x s' h)" if "(j, s') \<in> set rest" for j s'
        using Cons.prems(1)[of j s'] that by simp
      show "same_reads (setprop h1 x k (getprop h x k)) (setprop g1 x k (getprop h x k))"
        by (rule hg2)
      show "in_range (setprop h1 x k (getprop h x k)) x j" if "j \<in> fst ` set rest" for j
        using Cons.prems(3)[of j] that same_reads_in_range[OF h2, of x j] by simp
    qed
    then have "same_reads h (snd (validate_fields x rest (setprop g1 x k (getprop h x k))))"
      using h2 by (blast intro: same_reads_trans)
    with ih a b gp p Inr v show ?thesis by simp
  qed
qed

lemma stable_Lit: "stable (\<lambda>x h. validate x (Lit p) h)"
  by (simp add: stable_def)

lemma stable_ObjS:
  assumes "\<And>s. s \<in> snd ` set flds \<Longrightarrow> stable (\<lambda>x h. validate x s h)"
  shows "stable (\<lambda>x h. validate x (ObjS flds) h)"
  unfolding stable_def
proof (intro allI impI)
  fix x h g
  assume s: "same_reads h g"
  show "fst (validate x (ObjS flds) g) = fst (validate x (ObjS flds) h) \<and>
        same_reads h (snd (validate x (ObjS flds) g)) \<and>
        (\<forall>w. fst (validate x (ObjS flds) h) = Inr w \<longrightarrow> w = x)"
  proof (cases "shape_mismatch h x False (length flds)")
    case True
    with s same_reads_shape[OF s, of x False "length flds"] show ?thesis
      by (simp add: ObjS_def)
  next
    case False
    with s same_reads_shape[OF s, of x False "length flds"]
    have gm: "\<not> shape_mismatch g x False (length flds)" by simp
    from False have na: "\<not> isArray h x" by (simp add: shape_mismatch_def)
    have st: "stable (\<lambda>x h. validate x s' h)" if "(k, s') \<in> set flds" for k s'
      using assms[of s'] that by force
    have "fst (validate_fields x flds g) = fst (validate_fields x flds h) \<and>
          same_reads h (snd (validate_fields x flds g))"
      using st s in_range_object[OF na] by (rule validate_fields_stable)
    moreover have "w = x" if "fst (validate_fields x flds h) = Inr w" for w
      using that validate_fields_result[of x flds h w "snd (validate_fields x flds h)"]
      by (cases "validate_fields x flds h") simp
    ultimately show ?thesis using False gm by (simp add: ObjS_def)
  qed
qed

lemma stable_ArrS:
  assumes "\<And>s. s \<in> set elems \<Longrightarrow> stable (\<lambda>x h. validate x s h)"
  shows "stable (\<lambda>x h. validate x (ArrS elems) h)"
  unfolding stable_def
proof (intro allI impI)
  fix x h g
  assume s: "same_reads h g"
  let ?flds = "zip (index_keys (length elems)) elems"
  have len: "length ?flds = length elems" by simp
  show "fst (validate x (ArrS elems) g) = fst (validate x (ArrS elems) h) \<and>
        same_reads h (snd (validate x (ArrS elems) g)) \<and>
        (\<forall>w. fst (validate x (ArrS elems) h) = Inr w \<longrightarrow> w = x)"
  proof (cases "shape_mismatch h x True (length elems)")
    case True
    with s same_reads_shape[OF s, of x True "length elems"] show ?thesis
      by (simp add: ArrS_def)
  next
    case False
    with s same_reads_shape[OF s, of x True "length elems"]
    have gm: "\<not> shape_mismatch g x True (length elems)" by simp
    from False have al: "length elems = array_length h x" by (simp add: shape_mismatch_def)
    have st: "stable (\<lambda>x h. validate x s' h)" if "(k, s') \<in> set ?flds" for k s'
      using assms[of s'] that by (auto dest: set_zip_rightD)
    have rg: "in_range h x k" if "k \<in> fst ` set ?flds" for k
    proof -
      from that have "k \<in> set (index_keys (length elems))"
        by (auto dest: set_zip_leftD)
      then obtain i where "i < length elems" and "k = show_nat i"
        by (auto simp: index_keys_def)
      with al show ?thesis by (simp add: in_range_element)
    qed
    have "fst (validate_fields x ?flds g) = fst (validate_fields x ?flds h) \<and>
          same_reads h (snd (validate_fields x ?flds g))"
      using st s rg by (rule validate_fields_stable)
    moreover have "w = x" if "fst (validate_fields x ?flds h) = Inr w" for w
      using that validate_fields_result[of x ?flds h w "snd (validate_fields x ?flds h)"]
      by (cases "validate_fields x ?flds h") simp
    ultimately show ?thesis using False gm by (simp add: ArrS_def)
  qed
qed

section \<open>Validating a result again\<close>

lemma stable_scalars:
  "stable (string_v None)" "stable number" "stable integer" "stable boolean" "stable any"
  "stable never"
  by (auto simp: stable_def string_v_def number_def integer_def boolean_def any_def never_def)

lemma stable_matching:
  assumes "steady (test r)"
  shows "stable (string_v (Some r))"
proof (subst stable_def, intro allI impI)
  fix x h g
  assume s: "same_reads h g"
  let ?f = "string_v (Some r)"
  obtain b h1 where a: "test r x h = (b, h1)" by (cases "test r x h")
  obtain c g1 where b: "test r x g = (c, g1)" by (cases "test r x g")
  from assms[unfolded steady_def, rule_format, OF s, of x] a b
  have cb: "c = b" and hg1: "same_reads h g1" by simp_all
  show "fst (?f x g) = fst (?f x h) \<and> same_reads h (snd (?f x g)) \<and>
        (\<forall>w. fst (?f x h) = Inr w \<longrightarrow> w = x)"
    using a b cb hg1 s by (cases b) (auto simp: string_v_def)
qed

lemma stable_struct: "stable (\<lambda>x h. validate x s h) \<Longrightarrow> stable (struct s)"
  by (simp add: struct_def)

lemma stable_maybe:
  assumes "stable (\<lambda>x h. validate x s h)"
  shows "stable (maybe s undefined_v)"
  unfolding stable_def
proof (intro allI impI)
  fix x h g
  assume s: "same_reads h g"
  from stable_step[OF assms s, of x] s
  show "fst (maybe s undefined_v x g) = fst (maybe s undefined_v x h) \<and>
        same_reads h (snd (maybe s undefined_v x g)) \<and>
        (\<forall>w. fst (maybe s undefined_v x h) = Inr w \<longrightarrow> w = x)"
    by (auto simp: maybe_def undefined_v_def)
qed

lemma stable_filter:
  assumes "stable (\<lambda>x h. validate x s h)" and p: "steady p"
  shows "stable (filter_v s p m)"
proof (subst stable_def, intro allI impI)
  fix x h g
  assume s: "same_reads h g"
  let ?f = "filter_v s p m"
  from stable_step[OF assms(1) s, of x]
  obtain r h1 g1 where
    a: "validate x s h = (r, h1)" and b: "validate x s g = (r, g1)" and
    hh1: "same_reads h h1" and hg1: "same_reads h g1" and h1g1: "same_reads h1 g1" and
    w: "\<forall>w. r = Inr w \<longrightarrow> w = x"
    by blast
  show "fst (?f x g) = fst (?f x h) \<and> same_reads h (snd (?f x g)) \<and>
        (\<forall>w. fst (?f x h) = Inr w \<longrightarrow> w = x)"
  proof (cases r)
    case (Inl e)
    with a b hg1 show ?thesis by (simp add: filter_v_def map_v_def)
  next
    case (Inr v)
    with w have v: "v = x" by simp
    obtain c h2 where c: "p x h1 = (c, h2)" by (cases "p x h1")
    obtain d g2 where d: "p x g1 = (d, g2)" by (cases "p x g1")
    from p[unfolded steady_def, rule_format, OF h1g1, of x] c d
    have dc: "d = c" and "same_reads h1 g2" by simp_all
    with hh1 have hg2: "same_reads h g2" by (blast intro: same_reads_trans)
    from a b Inr v c d dc hg2 show ?thesis
      by (cases c) (auto simp: filter_v_def map_v_def)
  qed
qed

lemma allOf_loop_stable:
  assumes "\<And>s. s \<in> set ss \<Longrightarrow> stable (\<lambda>x h. validate x s h)" and "same_reads h g"
  shows "fst (allOf_loop ss x g) = fst (allOf_loop ss x h) \<and>
         same_reads h (snd (allOf_loop ss x g)) \<and>
         (\<forall>w. fst (allOf_loop ss x h) = Inr w \<longrightarrow> w = x)"
  using assms
proof (induction ss arbitrary: h g)
  case Nil
  then show ?case by simp
next
  case (Cons s ss)
  have sk: "stable (\<lambda>x h. validate x s h)" using Cons.prems(1)[of s] by simp
  from stable_step[OF sk Cons.prems(2), of x]
  obtain r h1 g1 where
    a: "validate x s h = (r, h1)" and b: "validate x s g = (r, g1)" and
    hh1: "same_reads h h1" and hg1: "same_reads h g1" and h1g1: "same_reads h1 g1" and
    w: "\<forall>w. r = Inr w \<longrightarrow> w = x"
    by blast
  show ?case
  proof (cases r)
    case (Inl e)
    with a b hg1 show ?thesis by simp
  next
    case (Inr v)
    with w have v: "v = x" by simp
    have ih: "fst (allOf_loop ss x g1) = fst (allOf_loop ss x h1) \<and>
              same_reads h1 (snd (allOf_loop ss x g1)) \<and>
              (\<forall>w. fst (allOf_loop ss x h1) = Inr w \<longrightarrow> w = x)"
    proof (rule Cons.IH)
      show "stable (\<lambda>x h. validate x s' h)" if "s' \<in> set ss" for s'
        using Cons.prems(1)[of s'] that by simp
      show "same_reads h1 g1" by (rule h1g1)
    qed
    then have "same_reads h (snd (allOf_loop ss x g1))"
      using hh1 by (blast intro: same_reads_trans)
    with ih a b Inr v show ?thesis by simp
  qed
qed

lemma anyOf_loop_stable:
  assumes "\<And>s. s \<in> set ss \<Longrightarrow> stable (\<lambda>x h. validate x s h)" and "same_reads h g"
  shows "fst (anyOf_loop ss x acc g) = fst (anyOf_loop ss x acc h) \<and>
         same_reads h (snd (anyOf_loop ss x acc g)) \<and>
         (\<forall>w. fst (anyOf_loop ss x acc h) = Inr w \<longrightarrow> w = x)"
  using assms
proof (induction ss arbitrary: h g acc)
  case Nil
  then show ?case by simp
next
  case (Cons s ss)
  have sk: "stable (\<lambda>x h. validate x s h)" using Cons.prems(1)[of s] by simp
  from stable_step[OF sk Cons.prems(2), of x]
  obtain r h1 g1 where
    a: "validate x s h = (r, h1)" and b: "validate x s g = (r, g1)" and
    hh1: "same_reads h h1" and hg1: "same_reads h g1" and h1g1: "same_reads h1 g1" and
    w: "\<forall>w. r = Inr w \<longrightarrow> w = x"
    by blast
  have ih: "fst (anyOf_loop ss x acc' g1) = fst (anyOf_loop ss x acc' h1) \<and>
            same_reads h1 (snd (anyOf_loop ss x acc' g1)) \<and>
            (\<forall>w. fst (anyOf_loop ss x acc' h1) = Inr w \<longrightarrow> w = x)" for acc'
  proof (rule Cons.IH)
    show "stable (\<lambda>x h. validate x s' h)" if "s' \<in> set ss" for s'
      using Cons.prems(1)[of s'] that by simp
    show "same_reads h1 g1" by (rule h1g1)
  qed
  have tr: "same_reads h (snd (anyOf_loop ss x acc' g1))" for acc'
    using ih[of acc'] hh1 by (blast intro: same_reads_trans)
  show ?case
  proof (cases r)
    case (Inr v)
    with a b hg1 w show ?thesis by simp
  next
    case (Inl e)
    show ?thesis
    proof (cases e)
      case (ValidationError i)
      with Inl a b ih[of "acc @ [i]"] tr[of "acc @ [i]"] show ?thesis by simp
    next
      case (OtherError t)
      with Inl a b hg1 show ?thesis by simp
    qed
  qed
qed

lemma oneOf_loop_stable:
  assumes "\<And>s. s \<in> set ss \<Longrightarrow> stable (\<lambda>x h. validate x s h)" and "same_reads h g"
  shows "fst (oneOf_loop ss x c x acc g) = fst (oneOf_loop ss x c x acc h) \<and>
         same_reads h (snd (oneOf_loop ss x c x acc g)) \<and>
         (\<forall>w. fst (oneOf_loop ss x c x acc h) = Inr w \<longrightarrow> w = x)"
  using assms
proof (induction ss arbitrary: h g acc c)
  case Nil
  then show ?case by simp
next
  case (Cons s ss)
  have sk: "stable (\<lambda>x h. validate x s h)" using Cons.prems(1)[of s] by simp
  from stable_step[OF sk Cons.prems(2), of x]
  obtain r h1 g1 where
    a: "validate x s h = (r, h1)" and b: "validate x s g = (r, g1)" and
    hh1: "same_reads h h1" and hg1: "same_reads h g1" and h1g1: "same_reads h1 g1" and
    w: "\<forall>w. r = Inr w \<longrightarrow> w = x"
    by blast
  have ih: "fst (oneOf_loop ss x c' x acc' g1) = fst (oneOf_loop ss x c' x acc' h1) \<and>
            same_reads h1 (snd (oneOf_loop ss x c' x acc' g1)) \<and>
            (\<forall>w. fst (oneOf_loop ss x c' x acc' h1) = Inr w \<longrightarrow> w = x)" for acc' c'
  proof (rule Cons.IH)
    show "stable (\<lambda>x h. validate x s' h)" if "s' \<in> set ss" for s'
      using Cons.prems(1)[of s'] that by simp
    show "same_reads h1 g1" by (rule h1g1)
  qed
  have tr: "same_reads h (snd (oneOf_loop ss x c' x acc' g1))" for acc' c'
    using ih[of c' acc'] hh1 by (blast intro: same_reads_trans)
  show ?case
  proof (cases r)
    case (Inr v)
    with w have v: "v = x" by simp
    show ?thesis
    proof (cases "c = 0")
      case True
      with Inr v a b ih[of "Suc 0" acc] tr[of "Suc 0" acc] show ?thesis by simp
    next
      case False
      with Inr v a b hg1 show ?thesis by simp
    qed
  next
    case (Inl e)
    show ?thesis
    proof (cases e)
      case (ValidationError i)
      with Inl a b ih[of c "acc @ [i]"] tr[of c "acc @ [i]"] show ?thesis by simp
    next
      case (OtherError t)
      with Inl a b hg1 show ?thesis by simp
    qed
  qed
qed

lemma array_loop_stable:
  assumes st: "stable (\<lambda>x h. validate x s h)" and "same_reads h g"
  shows "fst (array_loop s x i g) = fst (array_loop s x i h) \<and>
         same_reads h (snd (array_loop s x i g)) \<and>
         (\<forall>w. fst (array_loop s x i h) = Inr w \<longrightarrow> w = x)"
  using assms(2)
proof (induction n \<equiv> "4294967295 - i" arbitrary: i h g)
  case 0
  with array_length_le[of h x] array_length_le[of g x]
  have "\<not> i < array_length h x" and "\<not> i < array_length g x" by simp_all
  then have "array_loop s x i h = (Inr x, h)" and "array_loop s x i g = (Inr x, g)"
    by (subst array_loop.simps, simp)+
  with 0 show ?case by simp
next
  case (Suc n)
  note s = Suc.prems
  have al: "array_length g x = array_length h x"
    using s by (simp add: same_reads_array_length)
  show ?case
  proof (cases "i < array_length h x")
    case False
    with al have "array_loop s x i h = (Inr x, h)" and "array_loop s x i g = (Inr x, g)"
      by (subst array_loop.simps, simp)+
    with s show ?thesis by simp
  next
    case True
    let ?k = "show_nat i"
    have gp: "getprop g x ?k = getprop h x ?k"
      using s by (simp add: same_reads_getprop)
    have rk: "in_range h x ?k" using True by (rule in_range_element)
    from stable_step[OF st s, of "getprop h x ?k"]
    obtain r h1 g1 where
      a: "validate (getprop h x ?k) s h = (r, h1)" and
      b: "validate (getprop h x ?k) s g = (r, g1)" and
      hh1: "same_reads h h1" and hg1: "same_reads h g1" and
      w: "\<forall>w. r = Inr w \<longrightarrow> w = getprop h x ?k"
      by blast
    show ?thesis
    proof (cases r)
      case (Inl e)
      from True a Inl have "array_loop s x i h = (Inl (rethrow e (Index i)), h1)"
        by (subst array_loop.simps) simp
      moreover from True al b gp Inl have "array_loop s x i g = (Inl (rethrow e (Index i)), g1)"
        by (subst array_loop.simps) simp
      ultimately show ?thesis using hg1 by simp
    next
      case (Inr v)
      with w have v: "v = getprop h x ?k" by simp
      let ?h2 = "setprop h1 x ?k (getprop h x ?k)"
      let ?g2 = "setprop g1 x ?k (getprop h x ?k)"
      have h2: "same_reads h ?h2" using hh1 rk by (rule same_reads_assign)
      have g2: "same_reads h ?g2" using hg1 rk by (rule same_reads_assign)
      from h2 g2 have hg2: "same_reads ?h2 ?g2"
        by (blast intro: same_reads_sym same_reads_trans)
      from Suc.hyps(2) have n: "n = 4294967295 - Suc i" by simp
      from Suc.hyps(1)[OF n hg2]
      have ih: "fst (array_loop s x (Suc i) ?g2) = fst (array_loop s x (Suc i) ?h2) \<and>
                same_reads ?h2 (snd (array_loop s x (Suc i) ?g2)) \<and>
                (\<forall>w. fst (array_loop s x (Suc i) ?h2) = Inr w \<longrightarrow> w = x)" .
      then have tr: "same_reads h (snd (array_loop s x (Suc i) ?g2))"
        using h2 by (blast intro: same_reads_trans)
      from True a Inr v have "array_loop s x i h = array_loop s x (Suc i) ?h2"
        by (subst array_loop.simps) simp
      moreover from True al b gp Inr v have "array_loop s x i g = array_loop s x (Suc i) ?g2"
        by (subst array_loop.simps) simp
      ultimately show ?thesis using ih tr by simp
    qed
  qed
qed

lemma stable_allOf:
  assumes "\<And>s. s \<in> set ss \<Longrightarrow> stable (\<lambda>x h. validate x s h)"
  shows "stable (allOf ss)"
proof (subst stable_def, intro allI impI)
  fix x h g
  assume s: "same_reads h g"
  have "fst (allOf_loop ss x g) = fst (allOf_loop ss x h) \<and>
        same_reads h (snd (allOf_loop ss x g)) \<and>
        (\<forall>w. fst (allOf_loop ss x h) = Inr w \<longrightarrow> w = x)"
    using assms s by (rule allOf_loop_stable)
  then show "fst (allOf ss x g) = fst (allOf ss x h) \<and> same_reads h (snd (allOf ss x g)) \<and>
        (\<forall>w. fst (allOf ss x h) = Inr w \<longrightarrow> w = x)"
    by (simp add: allOf_def)
qed

lemma stable_anyOf:
  assumes "\<And>s. s \<in> set ss \<Longrightarrow> stable (\<lambda>x h. validate x s h)"
  shows "stable (anyOf ss)"
proof (subst stable_def, intro allI impI)
  fix x h g
  assume s: "same_reads h g"
  have "fst (anyOf_loop ss x [] g) = fst (anyOf_loop ss x [] h) \<and>
        same_reads h (snd (anyOf_loop ss x [] g)) \<and>
        (\<forall>w. fst (anyOf_loop ss x [] h) = Inr w \<longrightarrow> w = x)"
    using assms s by (rule anyOf_loop_stable)
  then show "fst (anyOf ss x g) = fst (anyOf ss x h) \<and> same_reads h (snd (anyOf ss x g)) \<and>
        (\<forall>w. fst (anyOf ss x h) = Inr w \<longrightarrow> w = x)"
    by (simp add: anyOf_def)
qed

lemma stable_oneOf:
  assumes "\<And>s. s \<in> set ss \<Longrightarrow> stable (\<lambda>x h. validate x s h)"
  shows "stable (oneOf ss)"
proof (subst stable_def, intro allI impI)
  fix x h g
  assume s: "same_reads h g"
  have "fst (oneOf_loop ss x 0 x [] g) = fst (oneOf_loop ss x 0 x [] h) \<and>
        same_reads h (snd (oneOf_loop ss x 0 x [] g)) \<and>
        (\<forall>w. fst (oneOf_loop ss x 0 x [] h) = Inr w \<longrightarrow> w = x)"
    using assms s by (rule oneOf_loop_stable)
  then show "fst (oneOf ss x g) = fst (oneOf ss x h) \<and> same_reads h (snd (oneOf ss x g)) \<and>
        (\<forall>w. fst (oneOf ss x h) = Inr w \<longrightarrow> w = x)"
    by (simp add: oneOf_def)
qed

lemma stable_array:
  assumes "stable (\<lambda>x h. validate x s h)"
  shows "stable (array s)"
  unfolding stable_def
proof (intro allI impI)
  fix x h g
  assume s: "same_reads h g"
  from s have ia: "isArray g x = isArray h x" by (simp add: same_reads_isArray)
  from array_loop_stable[OF assms s, of x 0] s ia
  show "fst (array s x g) = fst (array s x h) \<and> same_reads h (snd (array s x g)) \<and>
        (\<forall>w. fst (array s x h) = Inr w \<longrightarrow> w = x)"
    by (simp add: array_def)
qed

lemma plain_stable: "plain S \<Longrightarrow> stable (\<lambda>x h. validate x S h)"
proof (induction S rule: plain.induct)
  case (plain_Lit p)
  show ?case by (rule stable_Lit)
next
  case (plain_ObjS flds)
  then show ?case by (intro stable_ObjS) simp
next
  case (plain_ArrS elems)
  then show ?case by (intro stable_ArrS) simp
next
  case (plain_struct s)
  then show ?case by (simp add: stable_struct)
next
  case (plain_array s)
  then show ?case by (simp add: stable_array)
next
  case (plain_maybe s)
  then show ?case by (simp add: stable_maybe)
next
  case (plain_matching r)
  then show ?case by (simp add: stable_matching)
next
  case (plain_filter s p m)
  then show ?case by (simp add: stable_filter)
next
  case (plain_allOf ss)
  then show ?case by (simp add: stable_allOf)
next
  case (plain_anyOf ss)
  then show ?case by (simp add: stable_anyOf)
next
  case (plain_oneOf ss)
  then show ?case by (simp add: stable_oneOf)
qed (simp_all add: stable_scalars)

lemma steady_a_is_one: "steady a_is_one"
  by (simp add: steady_def a_is_one_def same_reads_getprop)

lemma steady_plain_a: "steady (test plain_a)"
  by (simp add: steady_def plain_a_def)

lemma plain_checked: "plain checked"
  unfolding checked_def checked_fields_def
  by (intro plain_filter plain_ObjS steady_a_is_one)
    (auto intro: plain_number plain_maybe plain_string plain_matching steady_plain_a)

text \<open>
  Claim C4, as stated, fails, in five ways.
  \<^item> \<open>map(number(), x => 2 * x)\<close> accepts \<open>6\<close> with the result \<open>12\<close>, and
    validating \<open>12\<close> gives \<open>24\<close>.
  \<^item> \<open>maybe(string(), 5)\<close> accepts \<open>undefined\<close> with the result \<open>5\<close>, and
    rejects \<open>5\<close>.
  \<^item> \<open>record(string(), any())\<close> returns a new object at every call, so the
    two results are different references.
  \<^item> \<open>allOf(filter(any(), x => !("b" in x)), {b: maybe(string())})\<close> accepts
    \<open>{}\<close>, creating the property \<open>b\<close> in it, and then rejects its own
    result.
  \<^item> \<open>string(/a/g)\<close> accepts \<open>"a"\<close>, which moves \<open>lastIndex\<close> to \<open>1\<close>, and
    rejects the same \<open>"a"\<close> at the next call.
\<close>

theorem idempotence_counterexample:
  "validate (num 6) doubling [] = (Inr (num 12), []) \<and>
   validate (num 12) doubling [] = (Inr (num 24), []) \<and>
   num 24 \<noteq> num 12 \<and>
   validate undefined_v five_if_absent [] = (Inr (num 5), []) \<and>
   validate (num 5) five_if_absent [] =
     (Inl (ValidationError (Info (Expected ''string'') [])), []) \<and>
   validate (Ref 0) (Fn any_record) [Object []] = (Inr (Ref 1), [Object [], Object []]) \<and>
   validate (Ref 1) (Fn any_record) [Object [], Object []] =
     (Inr (Ref 2), [Object [], Object [], Object []]) \<and>
   Ref 2 \<noteq> Ref 1 \<and>
   validate (Ref 0) fresh_b [Object []] = (Inr (Ref 0), [Object [(''b'', undefined_v)]]) \<and>
   validate (Ref 0) fresh_b [Object [(''b'', undefined_v)]] =
     (Inl (ValidationError (Info (Custom ''filter failed'') [])),
      [Object [(''b'', undefined_v)]]) \<and>
   validate (str ''a'') (Fn (string_v (Some (global_a 0)))) [Object [(''lastIndex'', num 0)]] =
     (Inr (str ''a''), [Object [(''lastIndex'', num 1)]]) \<and>
   validate (str ''a'') (Fn (string_v (Some (global_a 0)))) [Object [(''lastIndex'', num 1)]] =
     (Inl (ValidationError (Info (Expected ''string matching /a/g'') [])),
      [Object [(''lastIndex'', num 0)]])"
proof (intro conjI)
  show "validate (num 6) doubling [] = (Inr (num 12), [])"
    by (simp add: doubling_def map_v_def twice_def scalar_defs)
  show "validate (num 12) doubling [] = (Inr (num 24), [])"
    by (simp add: doubling_def map_v_def twice_def scalar_defs)
  show "num 24 \<noteq> num 12"
    by (simp add: num_def)
  show "validate undefined_v five_if_absent [] = (Inr (num 5), [])"
    by (simp add: five_if_absent_def maybe_def undefined_v_def)
  show "validate (num 5) five_if_absent [] =
     (Inl (ValidationError (Info (Expected ''string'') [])), [])"
    by (simp add: five_if_absent_def maybe_def scalar_defs)
  show "validate (Ref 0) (Fn any_record) [Object []] = (Inr (Ref 1), [Object [], Object []])"
    by (simp add: any_record_def record_v_def alloc_def own_keys_def shape_defs)
  show "validate (Ref 1) (Fn any_record) [Object [], Object []] =
     (Inr (Ref 2), [Object [], Object [], Object []])"
    by (simp add: any_record_def record_v_def alloc_def own_keys_def shape_defs)
  show "Ref 2 \<noteq> (Ref 1 :: val)"
    by simp
  show "validate (Ref 0) fresh_b [Object []] = (Inr (Ref 0), [Object [(''b'', undefined_v)]])"
    by (simp add: fresh_b_def allOf_def filter_v_def map_v_def lacks_b_def has_key_def
          own_keys_def ObjS_def maybe_def shape_defs prop_defs scalar_defs)
  show "validate (Ref 0) fresh_b [Object [(''b'', undefined_v)]] =
     (Inl (ValidationError (Info (Custom ''filter failed'') [])),
      [Object [(''b'', undefined_v)]])"
    by (simp add: fresh_b_def allOf_def filter_v_def filter_message_def map_v_def lacks_b_def
          has_key_def own_keys_def ObjS_def maybe_def shape_defs prop_defs scalar_defs)
  show "validate (str ''a'') (Fn (string_v (Some (global_a 0))))
      [Object [(''lastIndex'', num 0)]] =
     (Inr (str ''a''), [Object [(''lastIndex'', num 1)]])"
    by (simp add: global_a_def global_a_test_def last_index_def shape_defs prop_defs
          scalar_defs)
  show "validate (str ''a'') (Fn (string_v (Some (global_a 0))))
      [Object [(''lastIndex'', num 1)]] =
     (Inl (ValidationError (Info (Expected ''string matching /a/g'') [])),
      [Object [(''lastIndex'', num 0)]])"
    by (simp add: global_a_def global_a_test_def last_index_def shape_defs prop_defs
          scalar_defs)
qed

text \<open>
  Claim C4, amended.  Let \<open>S\<close> be a schema built from literals, object and
  array shapes, \<open>string\<close> (with a regular expression only if its \<open>test\<close>
  gives the same answer in heaps that read the same and leaves every property
  reading as before, which excludes the flags \<open>g\<close> and \<open>y\<close>), \<open>number\<close>,
  \<open>integer\<close>, \<open>boolean\<close>, \<open>any\<close>, \<open>never\<close>, \<open>struct\<close>, \<open>array\<close>,
  \<open>maybe\<close> without a default, \<open>allOf\<close>, \<open>anyOf\<close>, \<open>oneOf\<close>, and
  \<open>filter\<close> with a predicate that gives the same answer in heaps that read
  the same and leaves every property reading as before.  When \<open>S\<close> accepts
  \<open>v\<close>, the result is \<open>v\<close> itself and the heap reads as before; validating
  the result again succeeds with the same result, and the heap still reads
  the same.
\<close>

theorem plain_idempotent:
  assumes "plain S" and "validate v S h = (Inr r, h')"
  shows "r = v \<and> same_reads h h' \<and>
         (\<exists>h''. validate r S h' = (Inr r, h'') \<and> same_reads h' h'')"
proof -
  from assms(1) have st: "stable (\<lambda>x h. validate x S h)" by (rule plain_stable)
  from st[unfolded stable_def, rule_format, OF same_reads_refl, of v h] assms(2)
  have rv: "r = v" and hh': "same_reads h h'" by simp_all
  obtain r2 h2 where b: "validate v S h' = (r2, h2)" by (cases "validate v S h'")
  from st[unfolded stable_def, rule_format, OF hh', of v] assms(2) b
  have "r2 = Inr r" and "same_reads h h2" by simp_all
  with rv hh' b have "validate r S h' = (Inr r, h2) \<and> same_reads h' h2"
    by (auto intro: same_reads_sym same_reads_trans)
  with rv hh' show ?thesis by blast
qed

theorem plain_idempotent_witness:
  "plain checked \<and>
   validate (Ref 0) checked not_yet_checked = (Inr (Ref 0), checked_once) \<and>
   same_reads not_yet_checked checked_once \<and>
   (\<exists>h''. validate (Ref 0) checked checked_once = (Inr (Ref 0), h'') \<and>
          same_reads checked_once h'')"
proof -
  have b: "validate (Ref 0) checked not_yet_checked = (Inr (Ref 0), checked_once)"
    by (simp add: checked_def checked_fields_def not_yet_checked_def checked_once_def filter_v_def
          map_v_def a_is_one_def plain_a_def ObjS_def maybe_def shape_defs prop_defs
          scalar_defs)
  from plain_idempotent[OF plain_checked b] plain_checked b show ?thesis by blast
qed

end
